theory Spec2Isabelle
  imports Main
begin

chapter \<open>The model of the program\<close>

text \<open>
  The definitions of this chapter follow \<open>online_chrodpro_processor.py\<close>, function by
  function. The lemmas among them are what the termination proofs need.
\<close>

section \<open>Python strings\<close>

text \<open>
  A Python \<open>str\<close> is a sequence of Unicode code points. A code point is a natural
  number here, so \<open>length\<close> counts what Python's \<open>len\<close> counts. \<open>ascii\<close> writes a
  literal of the source; the three characters outside ASCII that the source names are
  given by their code points.
\<close>

type_synonym pychar = nat

type_synonym pystr = "pychar list"

definition ascii :: "string \<Rightarrow> pystr" where
  "ascii s = map of_char s"

text \<open>
  The characters that \<open>str.strip()\<close>, \<open>str.isspace()\<close> and the class \<open>\s\<close> of a \<open>str\<close>
  pattern treat as whitespace (CPython's \<open>_PyUnicode_IsWhitespace\<close>): U+0009..U+000D,
  U+001C..U+0020, U+0085, U+00A0, U+1680, U+2000..U+200A, U+2028, U+2029, U+202F,
  U+205F and U+3000. The non-breaking space U+00A0 is one of them.
\<close>

definition isspace :: "pychar \<Rightarrow> bool" where
  "isspace c \<longleftrightarrow>
     (9 \<le> c \<and> c \<le> 13) \<or> (28 \<le> c \<and> c \<le> 32) \<or> c = 133 \<or> c = 160 \<or> c = 5760 \<or>
     (8192 \<le> c \<and> c \<le> 8202) \<or> c = 8232 \<or> c = 8233 \<or> c = 8239 \<or> c = 8287 \<or>
     c = 12288"

text \<open>\<open>s.strip()\<close>, \<open>s.startswith(p)\<close>, \<open>k in s\<close>, \<open>s.split('\n')\<close> and \<open>'\n'.join(ls)\<close>.\<close>

definition strip :: "pystr \<Rightarrow> pystr" where
  "strip s = rev (dropWhile isspace (rev (dropWhile isspace s)))"

definition startswith :: "pystr \<Rightarrow> pystr \<Rightarrow> bool" where
  "startswith s p \<longleftrightarrow> take (length p) s = p"

fun contains :: "pystr \<Rightarrow> pystr \<Rightarrow> bool" where
  "contains [] k = (k = [])"
| "contains (c # cs) k = (startswith (c # cs) k \<or> contains cs k)"

definition NL :: pychar where
  "NL = 10"

fun split_nl :: "pystr \<Rightarrow> pystr list" where
  "split_nl [] = [[]]"
| "split_nl (c # cs) =
     (if c = NL then [] # split_nl cs
      else (case split_nl cs of l # ls \<Rightarrow> (c # l) # ls | [] \<Rightarrow> [[c]]))"

fun join_nl :: "pystr list \<Rightarrow> pystr" where
  "join_nl [] = []"
| "join_nl [l] = l"
| "join_nl (l # ls) = l @ NL # join_nl ls"

text \<open>\<open>str(n)\<close> of a non-negative integer: its decimal digits.\<close>

function str_nat :: "nat \<Rightarrow> pystr" where
  "str_nat n = (if n < 10 then [48 + n] else str_nat (n div 10) @ [48 + n mod 10])"
  by pat_completeness auto

termination
  by (relation "measure (\<lambda>n. n)") auto

declare str_nat.simps [simp del]

text \<open>
  A regular expression is modelled by the search of Python's backtracking matcher. A
  greedy repetition first takes the longest run and gives characters back one at a time:
  \<open>first_down n f\<close> tries the continuation \<open>f\<close> after \<open>n\<close>, \<open>n - 1\<close>, ..., \<open>0\<close> repetitions
  and returns the first success.
\<close>

fun first_down :: "nat \<Rightarrow> (nat \<Rightarrow> 'a option) \<Rightarrow> 'a option" where
  "first_down 0 f = f 0"
| "first_down (Suc n) f = (case f (Suc n) of Some x \<Rightarrow> Some x | None \<Rightarrow> first_down n f)"

text \<open>
  The functions of Python's library whose value depends on the Unicode tables or on the
  MD5 algorithm are parameters of the model:
  \<^item> \<open>md5_hexdigest s\<close> is \<open>hashlib.md5(s.encode('utf-8')).hexdigest()\<close>;
  \<^item> \<open>str_lower\<close> and \<open>str_title\<close> are \<open>str.lower()\<close> and \<open>str.title()\<close>;
  \<^item> \<open>re_digit\<close> is the class \<open>\d\<close> of a \<open>str\<close> pattern.
\<close>

record pylib =
  md5_hexdigest :: "pystr \<Rightarrow> pystr"
  str_lower :: "pystr \<Rightarrow> pystr"
  str_title :: "pystr \<Rightarrow> pystr"
  re_digit :: "pychar \<Rightarrow> bool"

section \<open>FrenchPunctuationHandler\<close>

definition NBSP :: pychar where
  "NBSP = 160"

text \<open>The class \<open>[;:!?\<guillemotright>]\<close> of \<open>DOUBLE_PUNCT_PATTERN\<close>; the right guillemet is U+00BB.\<close>

definition double_punct :: "pychar \<Rightarrow> bool" where
  "double_punct c \<longleftrightarrow> c = 59 \<or> c = 58 \<or> c = 33 \<or> c = 63 \<or> c = 187"

text \<open>The left guillemet U+00AB of \<open>OPENING_GUILLEMETS_PATTERN\<close>.\<close>

definition LGUIL :: pychar where
  "LGUIL = 171"

text \<open>
  \<open>DOUBLE_PUNCT_PATTERN = \s*([;:!?\<guillemotright>])\<close> matched at the head of \<open>s\<close>: group 1 and the
  text after the match.
\<close>

definition match_double_punct :: "pystr \<Rightarrow> (pychar \<times> pystr) option" where
  "match_double_punct s =
     first_down (length (takeWhile isspace s))
       (\<lambda>k. case drop k s of
               p # r \<Rightarrow> if double_punct p then Some (p, r) else None
             | [] \<Rightarrow> None)"

lemma first_down_last:
  "(\<And>k. k < n \<Longrightarrow> f k = None) \<Longrightarrow> first_down n f = f n"
  by (induction n) (auto split: option.splits)

lemma drop_takeWhile_head:
  "k < length (takeWhile P s) \<Longrightarrow> \<exists>c r. drop k s = c # r \<and> P c"
proof (induction s arbitrary: k)
  case Nil
  then show ?case by simp
next
  case (Cons a s)
  then show ?case by (cases k) (auto split: if_splits)
qed

lemma drop_length_takeWhile: "drop (length (takeWhile P s)) s = dropWhile P s"
  by (induction s) auto

lemma double_punct_not_space: "double_punct c \<Longrightarrow> \<not> isspace c"
  by (auto simp: double_punct_def isspace_def)

text \<open>
  Giving whitespace back never helps the match: the next character is then whitespace,
  which is not in the class. So the match is decided after the whole run.
\<close>

lemma match_double_punct_eq:
  "match_double_punct s =
     (case dropWhile isspace s of
        p # r \<Rightarrow> if double_punct p then Some (p, r) else None
      | [] \<Rightarrow> None)"
proof -
  let ?f = "\<lambda>k. case drop k s of
               p # r \<Rightarrow> if double_punct p then Some (p, r) else None
             | [] \<Rightarrow> None"
  have "?f k = None" if lt: "k < length (takeWhile isspace s)" for k
  proof -
    obtain c r where "drop k s = c # r" "isspace c"
      using drop_takeWhile_head [OF lt] by blast
    then show ?thesis using double_punct_not_space by auto
  qed
  then have "first_down (length (takeWhile isspace s)) ?f = ?f (length (takeWhile isspace s))"
    by (rule first_down_last)
  then show ?thesis
    by (simp add: match_double_punct_def drop_length_takeWhile)
qed

lemma match_double_punct_shorter:
  "match_double_punct s = Some (p, r) \<Longrightarrow> length r < length s"
proof -
  assume "match_double_punct s = Some (p, r)"
  then have "dropWhile isspace s = p # r"
    by (auto simp: match_double_punct_eq split: list.splits if_splits)
  then have "length (p # r) \<le> length s"
    by (metis length_dropWhile_le)
  then show ?thesis by simp
qed

text \<open>
  \<open>DOUBLE_PUNCT_PATTERN.sub(NBSP + group 1, text)\<close>: the scan goes from left to right; where
  the pattern matches, the match is replaced and the scan goes on after it; where it does
  not, the character is kept. The pattern matches no empty string.
\<close>

function sub_double_punct :: "pystr \<Rightarrow> pystr" where
  "sub_double_punct [] = []"
| "sub_double_punct (c # cs) =
     (case match_double_punct (c # cs) of
        Some (p, r) \<Rightarrow> NBSP # p # sub_double_punct r
      | None \<Rightarrow> c # sub_double_punct cs)"
  by pat_completeness auto

termination
  by (relation "measure length") (auto dest: match_double_punct_shorter)

text \<open>
  \<open>OPENING_GUILLEMETS_PATTERN = (\<guillemotleft>)\s*\<close> matched at the head of \<open>s\<close>: the text after the
  match. The greedy \<open>\s*\<close> ends the pattern, so it keeps the whole run.
\<close>

definition match_opening_guillemets :: "pystr \<Rightarrow> pystr option" where
  "match_opening_guillemets s =
     (case s of
        c # cs \<Rightarrow> if c = LGUIL then Some (dropWhile isspace cs) else None
      | [] \<Rightarrow> None)"

text \<open>\<open>OPENING_GUILLEMETS_PATTERN.sub(group 1 + NBSP, text)\<close>.\<close>

function sub_opening_guillemets :: "pystr \<Rightarrow> pystr" where
  "sub_opening_guillemets [] = []"
| "sub_opening_guillemets (c # cs) =
     (case match_opening_guillemets (c # cs) of
        Some r \<Rightarrow> LGUIL # NBSP # sub_opening_guillemets r
      | None \<Rightarrow> c # sub_opening_guillemets cs)"
  by pat_completeness auto

termination
  by (relation "measure length")
    (auto simp: match_opening_guillemets_def less_Suc_eq_le length_dropWhile_le
      split: if_splits)

text \<open>
  \<open>fix_french_punctuation\<close>. The parameter is a \<open>str\<close>, so the test \<open>isinstance(text, str)\<close>
  holds; the empty string is returned as it is.
\<close>

definition fix_french_punctuation :: "pystr \<Rightarrow> pystr" where
  "fix_french_punctuation text =
     (if text = [] then text
      else sub_opening_guillemets (sub_double_punct text))"

section \<open>The document parser\<close>

datatype py_error = TypeError | IndexError

text \<open>The dataclass \<open>SongMetadata\<close>: one row of the metadata table.\<close>

record SongMetadata =
  number :: pystr
  title :: pystr
  title2 :: pystr
  original_title :: pystr
  composer :: pystr
  author :: pystr
  key :: pystr
  format :: pystr
  copyright :: pystr
  reference :: pystr
  theme :: pystr
  tune_of :: pystr
  volume :: pystr
  supplement :: pystr
  f1 :: pystr
  link :: pystr

text \<open>The dataclass \<open>ChordProSection\<close>.\<close>

record ChordProSection =
  name :: pystr
  type :: pystr
  number :: "pystr option"
  content :: "pystr list"
  raw_content :: pystr

text \<open>The dictionary \<open>current_section_info\<close>, with its keys \<open>name\<close>, \<open>type\<close> and \<open>number\<close>.\<close>

record section_info =
  info_name :: pystr
  info_type :: pystr
  info_number :: "pystr option"

text \<open>The local variables of \<open>parse_chordpro_file\<close> that its loop reads and writes.\<close>

record parser_state =
  metadata :: "pystr \<rightharpoonup> pystr"
  sections :: "ChordProSection list"
  current_section_label :: "pystr option"
  current_section_content :: "pystr list"
  current_section_info :: "section_info option"
  in_section :: bool

definition initial_state :: parser_state where
  "initial_state =
     \<lparr>metadata = Map.empty, sections = [], current_section_label = None,
      current_section_content = [], current_section_info = None, in_section = False\<rparr>"

text \<open>\<open>label_to_type_map\<close>, in the order of its declaration.\<close>

definition label_to_type_map :: "(pystr \<times> pystr) list" where
  "label_to_type_map =
     [(ascii ''refrain'', ascii ''chorus''),
      (ascii ''chorus'', ascii ''chorus''),
      (ascii ''strophe'', ascii ''verse''),
      (ascii ''verse'', ascii ''verse''),
      (ascii ''pont'', ascii ''bridge''),
      (ascii ''bridge'', ascii ''bridge''),
      (ascii ''introduction'', ascii ''intro''),
      (ascii ''intro'', ascii ''intro''),
      (ascii ''fin'', ascii ''outro''),
      (ascii ''outro'', ascii ''outro'')]"

text \<open>
  The loop \<open>for key, value in label_to_type_map.items()\<close>: the first key that is a
  substring of \<open>type_part\<close> gives the type; with none, the type stays as it was.
\<close>

fun find_type :: "(pystr \<times> pystr) list \<Rightarrow> pystr \<Rightarrow> pystr \<Rightarrow> pystr" where
  "find_type [] type_part section_type = section_type"
| "find_type ((k, v) # kvs) type_part section_type =
     (if contains type_part k then v else find_type kvs type_part section_type)"

definition ascii_letter :: "pychar \<Rightarrow> bool" where
  "ascii_letter c \<longleftrightarrow> (65 \<le> c \<and> c \<le> 90) \<or> (97 \<le> c \<and> c \<le> 122)"

text \<open>
  \<open>$\<close> without the flag \<open>MULTILINE\<close>: the end of the string, or the place before a
  newline that ends the string.
\<close>

definition at_end :: "pystr \<Rightarrow> bool" where
  "at_end r \<longleftrightarrow> r = [] \<or> r = [NL]"

text \<open>The tail \<open>(\d+|[a-zA-Z])$\<close> of the label pattern, matched at the head of \<open>r\<close>: group 2.\<close>

definition match_ordinal :: "pylib \<Rightarrow> pystr \<Rightarrow> pystr option" where
  "match_ordinal L r =
     (case first_down (length (takeWhile (re_digit L) r))
             (\<lambda>n. if 0 < n \<and> at_end (drop n r) then Some (take n r) else None) of
        Some g \<Rightarrow> Some g
      | None \<Rightarrow>
          (case r of
             a # r' \<Rightarrow> if ascii_letter a \<and> at_end r' then Some [a] else None
           | [] \<Rightarrow> None))"

text \<open>
  \<open>re.match(r'([a-zA-Z\s]+)\s*(\d+|[a-zA-Z])$', s)\<close>: groups 1 and 2 of the first match
  that the backtracking search finds.
\<close>

definition match_label :: "pylib \<Rightarrow> pystr \<Rightarrow> (pystr \<times> pystr) option" where
  "match_label L s =
     first_down (length (takeWhile (\<lambda>c. ascii_letter c \<or> isspace c) s))
       (\<lambda>n. if n = 0 then None
            else (case first_down (length (takeWhile isspace (drop n s)))
                         (\<lambda>k. match_ordinal L (drop (n + k) s)) of
                    Some g2 \<Rightarrow> Some (take n s, g2)
                  | None \<Rightarrow> None))"

text \<open>
  \<open>re.match(r'\{([^:]+)(?::(.*))?\}', s)\<close>: group 1, and group 2 when the optional part
  took part in the match. The characters are \<open>{\<close> = 123, \<open>:\<close> = 58 and \<open>}\<close> = 125; the dot
  matches every character but the newline.
\<close>

definition match_directive :: "pystr \<Rightarrow> (pystr \<times> pystr option) option" where
  "match_directive s =
     (case s of
        c # body \<Rightarrow>
          if c = 123 then
            first_down (length (takeWhile (\<lambda>x. x \<noteq> 58) body))
              (\<lambda>n. if n = 0 then None
                   else (case (case drop n body of
                                 d # v \<Rightarrow>
                                   if d = 58 then
                                     first_down (length (takeWhile (\<lambda>x. x \<noteq> NL) v))
                                       (\<lambda>m. case drop m v of
                                               e # _ \<Rightarrow> if e = 125 then Some (take m v) else None
                                             | [] \<Rightarrow> None)
                                   else None
                               | [] \<Rightarrow> None) of
                           Some g2 \<Rightarrow> Some (take n body, Some g2)
                         | None \<Rightarrow>
                             (case drop n body of
                                e # _ \<Rightarrow> if e = 125 then Some (take n body, None) else None
                              | [] \<Rightarrow> None)))
          else None
      | [] \<Rightarrow> None)"

text \<open>
  The \<open>ChordProSection\<close> that both \<open>sections.append\<close> calls build. Reading a key of
  \<open>current_section_info\<close> while it is \<open>None\<close> raises \<open>TypeError\<close>.
\<close>

definition close_section :: "parser_state \<Rightarrow> py_error + ChordProSection" where
  "close_section st =
     (case current_section_info st of
        None \<Rightarrow> Inl TypeError
      | Some info \<Rightarrow>
          Inr \<lparr>name = info_name info, type = info_type info, number = info_number info,
               content = current_section_content st,
               raw_content = join_nl (current_section_content st)\<rparr>)"

text \<open>
  The name, type and number of the section that a start marker with block type
  \<open>block_type\<close> opens, and the pending label afterwards: a label that is neither \<open>None\<close>
  nor empty is used and cleared.
\<close>

definition open_section :: "pylib \<Rightarrow> pystr \<Rightarrow> pystr option \<Rightarrow> section_info \<times> pystr option" where
  "open_section L block_type label =
     (case label of
        None \<Rightarrow>
          (\<lparr>info_name = str_title L block_type, info_type = block_type, info_number = None\<rparr>,
           label)
      | Some current_label \<Rightarrow>
          if current_label = [] then
            (\<lparr>info_name = str_title L block_type, info_type = block_type, info_number = None\<rparr>,
             label)
          else
            (let label_lower = str_lower L current_label;
                 m = match_label L label_lower;
                 type_part = (case m of Some (g1, g2) \<Rightarrow> strip g1 | None \<Rightarrow> label_lower);
                 section_number = (case m of Some (g1, g2) \<Rightarrow> Some g2 | None \<Rightarrow> None)
             in (\<lparr>info_name = current_label,
                  info_type = find_type label_to_type_map type_part block_type,
                  info_number = section_number\<rparr>,
                 None)))"

text \<open>The four kinds of marker line, tested on the stripped line in the source's order.\<close>

definition is_comment :: "pystr \<Rightarrow> bool" where
  "is_comment line \<longleftrightarrow> startswith (strip line) (ascii ''{c:'')"

definition is_start :: "pystr \<Rightarrow> bool" where
  "is_start line \<longleftrightarrow> \<not> is_comment line \<and> startswith (strip line) (ascii ''{start_of_'')"

definition is_end :: "pystr \<Rightarrow> bool" where
  "is_end line \<longleftrightarrow>
     \<not> is_comment line \<and> \<not> is_start line \<and> startswith (strip line) (ascii ''{end_of_'')"

definition is_directive :: "pystr \<Rightarrow> bool" where
  "is_directive line \<longleftrightarrow>
     \<not> is_comment line \<and> \<not> is_start line \<and> \<not> is_end line \<and>
     startswith (strip line) (ascii ''{'')"

text \<open>One turn of the loop \<open>for line in lines\<close>.\<close>

definition parse_line :: "pylib \<Rightarrow> parser_state \<Rightarrow> pystr \<Rightarrow> py_error + parser_state" where
  "parse_line L st line =
     (let stripped_line = strip line in
      if is_comment line then
        Inr (st\<lparr>current_section_label := Some (strip (butlast (drop 3 stripped_line))),
                current_section_content :=
                  (if in_section st then current_section_content st @ [line]
                   else current_section_content st)\<rparr>)
      else if is_start line then
        (case (if in_section st then
                 (case close_section st of
                    Inl e \<Rightarrow> Inl e
                  | Inr s \<Rightarrow> Inr (sections st @ [s]))
               else Inr (sections st)) of
           Inl e \<Rightarrow> Inl e
         | Inr secs \<Rightarrow>
             (let block_type = strip (butlast (drop 10 stripped_line));
                  (info, label) = open_section L block_type (current_section_label st)
              in Inr (st\<lparr>sections := secs, in_section := True,
                         current_section_label := label,
                         current_section_info := Some info,
                         current_section_content := []\<rparr>)))
      else if is_end line then
        (if in_section st then
           (case close_section st of
              Inl e \<Rightarrow> Inl e
            | Inr s \<Rightarrow>
                Inr (st\<lparr>sections := sections st @ [s], in_section := False,
                        current_section_info := None, current_section_content := []\<rparr>))
         else Inr st)
      else if is_directive line then
        (let st1 =
               (case match_directive stripped_line of
                  Some (g1, g2) \<Rightarrow>
                    st\<lparr>metadata := (metadata st)
                         (strip g1 \<mapsto>
                            (case g2 of
                               Some v \<Rightarrow> if v = [] then [] else strip v
                             | None \<Rightarrow> []))\<rparr>
                | None \<Rightarrow> st)
         in Inr (if in_section st
                 then st1\<lparr>current_section_content := current_section_content st @ [line]\<rparr>
                 else st1))
      else if in_section st then
        Inr (st\<lparr>current_section_content := current_section_content st @ [line]\<rparr>)
      else Inr st)"

fun parse_lines :: "pylib \<Rightarrow> parser_state \<Rightarrow> pystr list \<Rightarrow> py_error + parser_state" where
  "parse_lines L st [] = Inr st"
| "parse_lines L st (line # rest) =
     (case parse_line L st line of
        Inl e \<Rightarrow> Inl e
      | Inr st' \<Rightarrow> parse_lines L st' rest)"

text \<open>
  \<open>parse_chordpro_file\<close>, from the text that it reads from the file: the directives and
  the sections.
\<close>

definition parse_chordpro_file ::
  "pylib \<Rightarrow> pystr \<Rightarrow> py_error + ((pystr \<rightharpoonup> pystr) \<times> ChordProSection list)" where
  "parse_chordpro_file L text =
     (case parse_lines L initial_state (split_nl text) of
        Inl e \<Rightarrow> Inl e
      | Inr st \<Rightarrow> Inr (metadata st, sections st))"

section \<open>The section deduplicator\<close>

text \<open>
  The content fingerprint of a section: the MD5 digest of its lines, without the lines
  whose stripped form starts with \<open>{c:\<close>, joined by newlines.
\<close>

definition content_lines :: "ChordProSection \<Rightarrow> pystr list" where
  "content_lines section =
     filter (\<lambda>line. \<not> startswith (strip line) (ascii ''{c:'')) (content section)"

definition content_hash :: "pylib \<Rightarrow> ChordProSection \<Rightarrow> pystr" where
  "content_hash L section = md5_hexdigest L (join_nl (content_lines section))"

text \<open>The three local variables of \<open>deduplicate_sections\<close>.\<close>

record dedup_state =
  unique_sections :: "ChordProSection list"
  section_map :: "pystr \<rightharpoonup> nat"
  index_map :: "nat list"

definition dedup_step :: "pylib \<Rightarrow> dedup_state \<Rightarrow> ChordProSection \<Rightarrow> dedup_state" where
  "dedup_step L st section =
     (case section_map st (content_hash L section) of
        Some unique_index \<Rightarrow> st\<lparr>index_map := index_map st @ [unique_index]\<rparr>
      | None \<Rightarrow>
          (let unique_index = length (unique_sections st)
           in st\<lparr>section_map := (section_map st)(content_hash L section \<mapsto> unique_index),
                 index_map := index_map st @ [unique_index],
                 unique_sections := unique_sections st @ [section]\<rparr>))"

definition dedup_loop :: "pylib \<Rightarrow> ChordProSection list \<Rightarrow> dedup_state" where
  "dedup_loop L secs =
     foldl (dedup_step L)
       \<lparr>unique_sections = [], section_map = Map.empty, index_map = []\<rparr> secs"

definition deduplicate_sections ::
  "pylib \<Rightarrow> ChordProSection list \<Rightarrow> ChordProSection list \<times> nat list" where
  "deduplicate_sections L secs =
     (unique_sections (dedup_loop L secs), index_map (dedup_loop L secs))"

section \<open>The chord extractor\<close>

text \<open>
  \<open>chord_pattern = \[([^\]]+)\]\<close> matched at the head of \<open>s\<close>: group 1 and the text after
  the match. The brackets are the characters 91 and 93.
\<close>

definition match_chord :: "pystr \<Rightarrow> (pystr \<times> pystr) option" where
  "match_chord s =
     (case s of
        c # cs \<Rightarrow>
          if c = 91 then
            first_down (length (takeWhile (\<lambda>x. x \<noteq> 93) cs))
              (\<lambda>n. if n = 0 then None
                   else (case drop n cs of
                           d # r \<Rightarrow> if d = 93 then Some (take n cs, r) else None
                         | [] \<Rightarrow> None))
          else None
      | [] \<Rightarrow> None)"

lemma first_down_SomeD: "first_down n f = Some x \<Longrightarrow> \<exists>k\<le>n. f k = Some x"
proof (induction n)
  case 0
  then show ?case by simp
next
  case (Suc n)
  then show ?case by (cases "f (Suc n)") (auto intro: le_SucI)
qed

lemma match_chord_Cons:
  "match_chord s = Some (g, r) \<Longrightarrow> \<exists>cs. s = 91 # cs"
  unfolding match_chord_def by (cases s) (simp_all split: if_splits)

lemma match_chord_shape:
  assumes "match_chord s = Some (g, r)"
  shows "s = 91 # g @ 93 # r \<and> g \<noteq> []"
proof -
  obtain cs where s: "s = 91 # cs"
    using match_chord_Cons [OF assms] by blast
  define f where "f = (\<lambda>n. if n = 0 then None
                 else (case drop n cs of
                         d # r \<Rightarrow> if d = 93 then Some (take n cs, r) else None
                       | [] \<Rightarrow> None))"
  have "first_down (length (takeWhile (\<lambda>x. x \<noteq> 93) cs)) f = Some (g, r)"
    using assms unfolding s match_chord_def f_def by simp
  from first_down_SomeD [OF this] obtain k where k: "f k = Some (g, r)"
    by auto
  have k0: "k \<noteq> 0" using k unfolding f_def by (cases "k = 0") simp_all
  have "drop k cs = 93 # r \<and> g = take k cs"
  proof (cases "drop k cs")
    case Nil
    then show ?thesis using k k0 unfolding f_def by simp
  next
    case (Cons d r')
    then show ?thesis using k k0 unfolding f_def by (cases "d = 93") simp_all
  qed
  then have d: "drop k cs = 93 # r" and g: "g = take k cs" by simp_all
  have "cs = g @ 93 # r"
    using append_take_drop_id [of k cs] unfolding d g [symmetric] by simp
  moreover have "g \<noteq> []" using g d k0 by auto
  ultimately show ?thesis using s by simp
qed

lemma match_chord_shorter:
  assumes "match_chord s = Some (g, r)"
  shows "length r < length s"
proof -
  have "s = 91 # g @ 93 # r" using match_chord_shape [OF assms] by simp
  then have "length s = length r + length g + 2" by simp
  then show ?thesis by simp
qed

text \<open>
  \<open>chord_pattern.finditer(line)\<close>: for each match, from left to right, its start offset
  and its group 1. \<open>finditer_chord i s\<close> scans \<open>s\<close>, which starts at offset \<open>i\<close> of the line.
\<close>

function finditer_chord :: "nat \<Rightarrow> pystr \<Rightarrow> (nat \<times> pystr) list" where
  "finditer_chord i [] = []"
| "finditer_chord i (c # cs) =
     (case match_chord (c # cs) of
        Some (g, r) \<Rightarrow> (i, g) # finditer_chord (i + length g + 2) r
      | None \<Rightarrow> finditer_chord (i + 1) cs)"
  by pat_completeness auto

termination
  by (relation "measure (\<lambda>(i, s). length s)") (auto dest: match_chord_shorter)

text \<open>\<open>chord_pattern.sub('', line)\<close>.\<close>

function sub_chord :: "pystr \<Rightarrow> pystr" where
  "sub_chord [] = []"
| "sub_chord (c # cs) =
     (case match_chord (c # cs) of
        Some (g, r) \<Rightarrow> sub_chord r
      | None \<Rightarrow> c # sub_chord cs)"
  by pat_completeness auto

termination
  by (relation "measure length") (auto dest: match_chord_shorter)

text \<open>One chord dictionary, with its keys \<open>id\<close>, \<open>pos\<close>, \<open>key\<close>, \<open>chord\<close> and \<open>original_pos\<close>.\<close>

record chord_entry =
  c_id :: pystr
  c_pos :: int
  c_key :: pystr
  c_chord :: pystr
  c_original_pos :: int

text \<open>
  The inner loop \<open>for prev_chord in chords\<close>: it takes the length of \<open>[chord]\<close> off
  \<open>adjusted_pos\<close> for every earlier chord whose bracket starts before \<open>p\<close>.
\<close>

fun adjust_pos :: "chord_entry list \<Rightarrow> int \<Rightarrow> int \<Rightarrow> int" where
  "adjust_pos [] p adjusted_pos = adjusted_pos"
| "adjust_pos (prev_chord # rest) p adjusted_pos =
     adjust_pos rest p
       (if c_original_pos prev_chord < p
        then adjusted_pos - int (length (ascii ''['' @ c_chord prev_chord @ ascii '']''))
        else adjusted_pos)"

text \<open>One turn of the loop over the matches: the chord dictionary that is appended.\<close>

definition chord_step :: "pylib \<Rightarrow> chord_entry list \<Rightarrow> nat \<times> pystr \<Rightarrow> chord_entry list" where
  "chord_step L chords m =
     (case m of
        (p, chord) \<Rightarrow>
          chords @
          [\<lparr>c_id = take 5 (md5_hexdigest L (chord @ str_nat p)),
            c_pos = max 0 (adjust_pos chords (int p) (int p)),
            c_key = chord, c_chord = chord, c_original_pos = int p\<rparr>])"

definition parse_chord_line :: "pylib \<Rightarrow> pystr \<Rightarrow> chord_entry list \<times> pystr" where
  "parse_chord_line L line = (foldl (chord_step L) [] (finditer_chord 0 line), sub_chord line)"

section \<open>The show synthesizer\<close>

text \<open>
  A display line and a slide: the fields of the dictionaries that depend on the section.
  The other entries are constants (\<open>align\<close>, \<open>style\<close>, \<open>settings\<close>, \<open>notes\<close>, \<open>auto\<close> and the
  disabled \<open>chords\<close> switch of the item).
\<close>

record line_data =
  l_text :: pystr
  l_chords :: "chord_entry list"

record slide_data =
  s_group :: pystr
  s_color :: pystr
  s_globalGroup :: "pystr option"
  s_lines :: "line_data list"

definition section_colors :: "(pystr \<times> pystr) list" where
  "section_colors =
     [(ascii ''verse'', []),
      (ascii ''chorus'', ascii ''#f525d2''),
      (ascii ''bridge'', ascii ''#f52598''),
      (ascii ''pre_chorus'', ascii ''#25d2f5''),
      (ascii ''tag'', ascii ''#f5d225''),
      (ascii ''intro'', []),
      (ascii ''outro'', [])]"

definition global_groups :: "(pystr \<times> pystr) list" where
  "global_groups =
     [(ascii ''chorus'', ascii ''chorus''),
      (ascii ''bridge'', ascii ''bridge''),
      (ascii ''pre_chorus'', ascii ''pre_chorus'')]"

text \<open>
  \<open>re.sub(r'^\d+\.\s*', '', clean_text)\<close>. The pattern can match at offset 0 only; the
  full stop is the character 46.
\<close>

definition match_enumeration :: "pylib \<Rightarrow> pystr \<Rightarrow> pystr option" where
  "match_enumeration L s =
     first_down (length (takeWhile (re_digit L) s))
       (\<lambda>n. if n = 0 then None
            else (case drop n s of
                    d # r \<Rightarrow> if d = 46 then Some (dropWhile isspace r) else None
                  | [] \<Rightarrow> None))"

definition sub_enumeration :: "pylib \<Rightarrow> pystr \<Rightarrow> pystr" where
  "sub_enumeration L s = (case match_enumeration L s of Some r \<Rightarrow> r | None \<Rightarrow> s)"

text \<open>The display line that \<open>create_freeshow_slide\<close> builds from a content line.\<close>

definition display_line :: "pylib \<Rightarrow> pystr \<Rightarrow> line_data" where
  "display_line L line =
     (case parse_chord_line L line of
        (chords, clean_text) \<Rightarrow>
          \<lparr>l_text = fix_french_punctuation (sub_enumeration L clean_text),
           l_chords = chords\<rparr>)"

text \<open>
  The loop \<open>for line in section.content\<close> of \<open>create_freeshow_slide\<close>: a line that starts
  with \<open>{c:\<close> is skipped, a line that is not blank becomes a display line.
\<close>

fun slide_lines :: "pylib \<Rightarrow> pystr list \<Rightarrow> line_data list" where
  "slide_lines L [] = []"
| "slide_lines L (line # rest) =
     (if startswith line (ascii ''{c:'') then slide_lines L rest
      else if strip line \<noteq> [] then display_line L line # slide_lines L rest
      else slide_lines L rest)"

text \<open>
  \<open>create_freeshow_slide\<close>; its parameters \<open>slide_id\<close> and \<open>colors\<close> are not read by the
  source.
\<close>

definition create_freeshow_slide :: "pylib \<Rightarrow> ChordProSection \<Rightarrow> slide_data" where
  "create_freeshow_slide L section =
     \<lparr>s_group = name section,
      s_color = (case map_of section_colors (type section) of Some c \<Rightarrow> c | None \<Rightarrow> []),
      s_globalGroup = map_of global_groups (type section),
      s_lines = slide_lines L (content section)\<rparr>"

text \<open>
  The show document: the entries that depend on the input. \<open>origin\<close>, \<open>private\<close>,
  \<open>template\<close>, the layout's \<open>name\<close> and \<open>notes\<close>, and the empty \<open>media\<close> are constants.
\<close>

record show_meta =
  m_number :: pystr
  m_title :: pystr
  m_author :: pystr
  m_composer :: pystr
  m_copyright :: pystr
  m_year :: pystr
  m_key :: pystr

record show_document =
  show_id :: pystr
  show_name :: pystr
  show_category :: pystr
  show_activeLayout :: pystr
  show_quickAccess_number :: pystr
  show_meta :: show_meta
  show_slides :: "pystr \<rightharpoonup> slide_data"
  show_layout_id :: pystr
  show_layout_slides :: "pystr list"

text \<open>The slide identifier of the unique section \<open>section\<close> at index \<open>i\<close>.\<close>

definition slide_id :: "pylib \<Rightarrow> nat \<Rightarrow> ChordProSection \<Rightarrow> pystr" where
  "slide_id L i section =
     take 11 (md5_hexdigest L (type section @ str_nat i @ raw_content section))"

text \<open>
  The loop \<open>for unique_index in index_map\<close>; \<open>unique_slide_ids[unique_index]\<close> raises
  \<open>IndexError\<close> for an index that is out of range.
\<close>

fun layout_loop :: "pystr list \<Rightarrow> nat list \<Rightarrow> py_error + pystr list" where
  "layout_loop unique_slide_ids [] = Inr []"
| "layout_loop unique_slide_ids (unique_index # rest) =
     (if unique_index < length unique_slide_ids then
        (case layout_loop unique_slide_ids rest of
           Inl e \<Rightarrow> Inl e
         | Inr layout_slides \<Rightarrow> Inr (unique_slide_ids ! unique_index # layout_slides))
      else Inl IndexError)"

definition dict_get :: "('k \<rightharpoonup> 'v) \<Rightarrow> 'k \<Rightarrow> 'v \<Rightarrow> 'v" where
  "dict_get d k dflt = (case d k of Some v \<Rightarrow> v | None \<Rightarrow> dflt)"

text \<open>
  \<open>generate_freeshow_file\<close>, from the stem \<open>filename\<close> of the path and the text of the
  file: the show document that it writes.
\<close>

definition generate_freeshow_file :: "pylib \<Rightarrow> pystr \<Rightarrow> pystr \<Rightarrow> py_error + show_document" where
  "generate_freeshow_file L filename text =
     (case parse_chordpro_file L text of
        Inl e \<Rightarrow> Inl e
      | Inr (file_metadata, secs) \<Rightarrow>
          (let song_number = dict_get file_metadata (ascii ''number'') [];
               title_text =
                 fix_french_punctuation (dict_get file_metadata (ascii ''title'') filename);
               (unique, idx_map) = deduplicate_sections L secs;
               slides = foldl (\<lambda>d (i, section).
                                 d(slide_id L i section \<mapsto> create_freeshow_slide L section))
                          Map.empty (enumerate 0 unique);
               unique_slide_ids = map (\<lambda>(i, section). slide_id L i section) (enumerate 0 unique);
               layout_id = take 11 (md5_hexdigest L (ascii ''layout'' @ filename))
           in case layout_loop unique_slide_ids idx_map of
                Inl e \<Rightarrow> Inl e
              | Inr layout_slides \<Rightarrow>
                  Inr \<lparr>show_id = take 11 (md5_hexdigest L filename),
                       show_name = title_text,
                       show_category =
                         (if startswith filename (ascii ''jem'') then
                            (if contains (str_lower L filename) (ascii ''jemk'')
                             then ascii ''JEM Kids'' else ascii ''JEM'')
                          else ascii ''song''),
                       show_activeLayout = layout_id,
                       show_quickAccess_number = song_number,
                       show_meta =
                         \<lparr>m_number = song_number, m_title = title_text,
                          m_author = fix_french_punctuation
                                       (dict_get file_metadata (ascii ''lyricist'') []),
                          m_composer = fix_french_punctuation
                                         (dict_get file_metadata (ascii ''composer'') []),
                          m_copyright = fix_french_punctuation
                                          (dict_get file_metadata (ascii ''copyright'') []),
                          m_year = dict_get file_metadata (ascii ''year'') [],
                          m_key = dict_get file_metadata (ascii ''key'') []\<rparr>,
                       show_slides = slides,
                       show_layout_id = layout_id,
                       show_layout_slides = layout_slides\<rparr>))"

section \<open>The metadata merge\<close>

text \<open>\<open>re.search(r'(\d{4})', s)\<close>: the first four digits in a row.\<close>

fun search_year :: "pylib \<Rightarrow> pystr \<Rightarrow> pystr option" where
  "search_year L [] = None"
| "search_year L (c # cs) =
     (if 4 \<le> length (c # cs) \<and> list_all (re_digit L) (take 4 (c # cs))
      then Some (take 4 (c # cs))
      else search_year L cs)"

text \<open>The header lines that \<open>enhance_chordpro\<close> writes for a row of the metadata table.\<close>

definition metadata_header :: "pylib \<Rightarrow> SongMetadata \<Rightarrow> pystr list" where
  "metadata_header L csv_metadata =
     [ascii ''{number: '' @ SongMetadata.number csv_metadata @ ascii ''}'',
      ascii ''{title: '' @ fix_french_punctuation (title csv_metadata) @ ascii ''}''] @
     (if author csv_metadata \<noteq> []
      then [ascii ''{lyricist: '' @ fix_french_punctuation (author csv_metadata) @ ascii ''}'']
      else []) @
     (if composer csv_metadata \<noteq> []
      then [ascii ''{composer: '' @ fix_french_punctuation (composer csv_metadata) @ ascii ''}'']
      else []) @
     (if copyright csv_metadata \<noteq> []
      then [ascii ''{copyright: '' @ fix_french_punctuation (copyright csv_metadata) @ ascii ''}''] @
           (case search_year L (copyright csv_metadata) of
              Some year \<Rightarrow> [ascii ''{year: '' @ year @ ascii ''}'']
            | None \<Rightarrow> [])
      else [])"

text \<open>The lines that \<open>enhance_chordpro\<close> writes for one section.\<close>

definition section_block :: "ChordProSection \<Rightarrow> pystr list" where
  "section_block section =
     [ascii ''{start_of_'' @ type section @ ascii ''}''] @
     map (\<lambda>line. if \<not> startswith (strip line) (ascii ''{'')
                 then fix_french_punctuation line else line)
       (content section) @
     [ascii ''{end_of_'' @ type section @ ascii ''}'', []]"

text \<open>
  \<open>enhance_chordpro\<close>, from the metadata table, the stem \<open>filename\<close> of the path and the
  text of the file: the list \<open>output_lines\<close>, which the source joins by newlines and
  writes.
\<close>

definition enhance_chordpro ::
  "pylib \<Rightarrow> (pystr \<rightharpoonup> SongMetadata) \<Rightarrow> pystr \<Rightarrow> pystr \<Rightarrow> py_error + pystr list" where
  "enhance_chordpro L table filename text =
     (case parse_chordpro_file L text of
        Inl e \<Rightarrow> Inl e
      | Inr (file_metadata, secs) \<Rightarrow>
          Inr ((case table (str_lower L filename) of
                  Some csv_metadata \<Rightarrow> metadata_header L csv_metadata
                | None \<Rightarrow> []) @
               (case file_metadata (ascii ''key'') of
                  Some v \<Rightarrow> [ascii ''{key: '' @ v @ ascii ''}'']
                | None \<Rightarrow> []) @
               [[]] @
               concat (map section_block secs)))"

chapter \<open>Notions for the statements and the proofs\<close>

text \<open>
  \<open>punct_next s\<close>: the first character of \<open>s\<close> that is not whitespace is one of the
  double punctuation marks, that is, \<open>DOUBLE_PUNCT_PATTERN\<close> matches at the head of \<open>s\<close>.
\<close>

definition punct_next :: "pystr \<Rightarrow> bool" where
  "punct_next s = (case dropWhile isspace s of p # r \<Rightarrow> double_punct p | [] \<Rightarrow> False)"

text \<open>
  While the parser is inside a section, \<open>current_section_info\<close> is a dictionary: the
  start marker that sets \<open>in_section\<close> sets it. So no \<open>TypeError\<close> is raised.
\<close>

definition info_set :: "parser_state \<Rightarrow> bool" where
  "info_set st \<longleftrightarrow> (in_section st \<longrightarrow> current_section_info st \<noteq> None)"

text \<open>The section that a marker closes: from the dictionary and the lines gathered.\<close>

definition section_of :: "section_info \<Rightarrow> pystr list \<Rightarrow> ChordProSection" where
  "section_of info ls =
     \<lparr>name = info_name info, type = info_type info, number = info_number info,
      content = ls, raw_content = join_nl ls\<rparr>"

text \<open>The block type that the parser reads from a start marker: \<open>stripped_line[10:-1].strip()\<close>.\<close>

definition block_type_of :: "pystr \<Rightarrow> pystr" where
  "block_type_of line = strip (butlast (drop 10 (strip line)))"

text \<open>
  \<open>emitted_from ls sec\<close>: the section \<open>sec\<close> is a block of the lines \<open>ls\<close>, from a start
  marker to the next start or end marker, with the lines between them as its content.
\<close>

definition emitted_from :: "pystr list \<Rightarrow> ChordProSection \<Rightarrow> bool" where
  "emitted_from ls sec \<longleftrightarrow>
     (\<exists>pre s body e post.
        ls = pre @ s # body @ e # post \<and> is_start s \<and> (is_start e \<or> is_end e) \<and>
        (\<forall>l\<in>set body. \<not> is_start l \<and> \<not> is_end l) \<and>
        content sec = body \<and> raw_content sec = join_nl body \<and>
        (type sec \<in> snd ` set label_to_type_map \<or> type sec = block_type_of s))"

text \<open>The invariant of the parser's loop, after the lines \<open>seen\<close>.\<close>

definition parser_inv :: "pystr list \<Rightarrow> parser_state \<Rightarrow> bool" where
  "parser_inv seen st \<longleftrightarrow>
     (in_section st \<longrightarrow>
        (\<exists>info pre s.
           current_section_info st = Some info \<and>
           seen = pre @ s # current_section_content st \<and> is_start s \<and>
           (\<forall>l\<in>set (current_section_content st). \<not> is_start l \<and> \<not> is_end l) \<and>
           (info_type info \<in> snd ` set label_to_type_map \<or> info_type info = block_type_of s))) \<and>
     (\<forall>sec\<in>set (sections st). emitted_from seen sec)"

text \<open>
  An instance of the library parameters for the worked examples. On ASCII text its
  \<open>str_lower\<close>, \<open>str_title\<close> and \<open>re_digit\<close> are Python's; in the place of MD5 it has
  the identity, a digest without collisions.
\<close>

definition ascii_lower :: "pychar \<Rightarrow> pychar" where
  "ascii_lower c = (if 65 \<le> c \<and> c \<le> 90 then c + 32 else c)"

definition ascii_upper :: "pychar \<Rightarrow> pychar" where
  "ascii_upper c = (if 97 \<le> c \<and> c \<le> 122 then c - 32 else c)"

fun ascii_title :: "bool \<Rightarrow> pystr \<Rightarrow> pystr" where
  "ascii_title prev [] = []"
| "ascii_title prev (c # cs) =
     (if ascii_letter c
      then (if prev then ascii_lower c else ascii_upper c) # ascii_title True cs
      else c # ascii_title False cs)"

definition ascii_lib :: pylib where
  "ascii_lib =
     \<lparr>md5_hexdigest = (\<lambda>s. s), str_lower = map ascii_lower,
      str_title = ascii_title False, re_digit = (\<lambda>c. 48 \<le> c \<and> c \<le> 57)\<rparr>"

text \<open>The invariant of the loop of \<open>deduplicate_sections\<close>, after the sections \<open>xs\<close>.\<close>

definition dedup_inv :: "pylib \<Rightarrow> ChordProSection list \<Rightarrow> dedup_state \<Rightarrow> bool" where
  "dedup_inv L xs st \<longleftrightarrow>
     length (index_map st) = length xs \<and>
     (\<forall>k<length xs. index_map st ! k < length (unique_sections st) \<and>
        content_hash L (unique_sections st ! (index_map st ! k)) = content_hash L (xs ! k)) \<and>
     (\<forall>h i. section_map st h = Some i \<longleftrightarrow>
        i < length (unique_sections st) \<and> content_hash L (unique_sections st ! i) = h) \<and>
     distinct (map (content_hash L) (unique_sections st))"

text \<open>
  A section without non-comment lines has the fingerprint text of a section whose only
  non-comment line is empty.
\<close>

definition lines_or_blank :: "ChordProSection \<Rightarrow> pystr list" where
  "lines_or_blank s = (if content_lines s = [] then [[]] else content_lines s)"

text \<open>A verse with the content lines \<open>ls\<close>, for the worked examples.\<close>

definition verse_of :: "pystr list \<Rightarrow> ChordProSection" where
  "verse_of ls =
     \<lparr>name = ascii ''Verse'', type = ascii ''verse'', number = None,
      content = ls, raw_content = join_nl ls\<rparr>"

text \<open>The length of the bracket markup of the matches.\<close>

definition markup_length :: "(nat \<times> pystr) list \<Rightarrow> nat" where
  "markup_length ms = sum_list (map (\<lambda>m. length (ascii ''['' @ snd m @ ascii '']'')) ms)"


text \<open>The total length of the bracket markup of the chords \<open>cs\<close>.\<close>

definition removed_len :: "chord_entry list \<Rightarrow> int" where
  "removed_len cs = (\<Sum>c\<leftarrow>cs. int (length (ascii ''['' @ c_chord c @ ascii '']'')))"

text \<open>A row of the metadata table for another song, for the worked examples.\<close>

definition other_song :: SongMetadata where
  "other_song =
     \<lparr>SongMetadata.number = ascii ''jem002'', title = ascii ''Titre'', title2 = [],
      original_title = [], composer = [], author = ascii ''Auteur'', key = [], format = [],
      copyright = [], reference = [], theme = [], tune_of = [], volume = [],
      supplement = [], f1 = [], link = []\<rparr>"

chapter \<open>The properties\<close>

section \<open>Facts about strings\<close>

text \<open>Joining lines without newlines loses one thing only: no line and one empty line.\<close>

lemma split_nl_plain: "NL \<notin> set l \<Longrightarrow> split_nl l = [l]"
  by (induction l) auto

lemma split_nl_append: "NL \<notin> set l \<Longrightarrow> split_nl (l @ NL # r) = l # split_nl r"
  by (induction l) auto

lemma split_nl_join_nl:
  "\<forall>l\<in>set ls. NL \<notin> set l \<Longrightarrow> split_nl (join_nl ls) = (if ls = [] then [[]] else ls)"
proof (induction ls rule: join_nl.induct)
  case 1
  then show ?case by simp
next
  case (2 l)
  then show ?case by (simp add: split_nl_plain)
next
  case (3 l l' ls)
  then show ?case by (simp add: split_nl_append)
qed

lemma join_nl_eq_iff:
  assumes "\<forall>l\<in>set xs. NL \<notin> set l" and "\<forall>l\<in>set ys. NL \<notin> set l"
  shows "join_nl xs = join_nl ys \<longleftrightarrow>
     (if xs = [] then [[]] else xs) = (if ys = [] then [[]] else ys)"
proof
  assume "join_nl xs = join_nl ys"
  then have "split_nl (join_nl xs) = split_nl (join_nl ys)" by simp
  then show "(if xs = [] then [[]] else xs) = (if ys = [] then [[]] else ys)"
    using assms by (simp only: split_nl_join_nl)
next
  assume e: "(if xs = [] then [[]] else xs) = (if ys = [] then [[]] else ys)"
  have "join_nl (if xs = [] then [[]] else xs) = join_nl xs"
    and "join_nl (if ys = [] then [[]] else ys) = join_nl ys"
    by simp_all
  then show "join_nl xs = join_nl ys" unfolding e by simp
qed

lemma split_nl_not_Nil: "split_nl t \<noteq> []"
  by (induction t) (auto split: list.splits)

lemma split_nl_no_NL: "l \<in> set (split_nl t) \<Longrightarrow> NL \<notin> set l"
proof (induction t arbitrary: l)
  case Nil
  then show ?case by simp
next
  case (Cons c t)
  then show ?case
    by (cases "split_nl t") (auto simp: split_nl_not_Nil split: if_splits)
qed

lemma split_nl_join_prefix:
  assumes "split_nl t = xs @ ys" and "xs \<noteq> []"
  shows "split_nl (join_nl xs) = xs"
proof -
  have "\<forall>l\<in>set xs. NL \<notin> set l"
    using split_nl_no_NL [of _ t] assms(1) by simp
  then show ?thesis using assms(2) by (simp add: split_nl_join_nl)
qed

section \<open>Properties of the typography normalizer\<close>

subsection \<open>Facts about the two substitutions\<close>

lemma isspace_NBSP [simp]: "isspace NBSP"
  by (simp add: isspace_def NBSP_def)

lemma not_isspace_LGUIL [simp]: "\<not> isspace LGUIL"
  by (simp add: isspace_def LGUIL_def)

lemma not_double_punct_LGUIL [simp]: "\<not> double_punct LGUIL"
  by (simp add: double_punct_def LGUIL_def)

lemma NBSP_neq_LGUIL [simp]: "NBSP \<noteq> LGUIL"
  by (simp add: NBSP_def LGUIL_def)

lemma double_punct_neq_LGUIL: "double_punct p \<Longrightarrow> p \<noteq> LGUIL"
  by auto

lemma match_double_punct_None: "\<not> punct_next s \<Longrightarrow> match_double_punct s = None"
  by (cases "dropWhile isspace s")
    (simp_all add: match_double_punct_eq punct_next_def del: dropWhile_eq_Nil_conv)

lemma match_double_punct_Some:
  "dropWhile isspace s = p # r \<Longrightarrow> double_punct p \<Longrightarrow> match_double_punct s = Some (p, r)"
  by (simp add: match_double_punct_eq)

lemma sub_double_punct_match:
  "dropWhile isspace (c # cs) = p # r \<Longrightarrow> double_punct p \<Longrightarrow>
   sub_double_punct (c # cs) = NBSP # p # sub_double_punct r"
  using match_double_punct_Some [of "c # cs" p r] by simp

lemma sub_double_punct_nomatch:
  "\<not> punct_next (c # cs) \<Longrightarrow> sub_double_punct (c # cs) = c # sub_double_punct cs"
  using match_double_punct_None [of "c # cs"] by simp

declare sub_double_punct.simps(2) [simp del]

lemma punct_next_cases:
  "punct_next s \<Longrightarrow> \<exists>p r. dropWhile isspace s = p # r \<and> double_punct p"
  by (auto simp: punct_next_def split: list.splits)

lemma punct_next_Cons:
  "punct_next (c # cs) = (if isspace c then punct_next cs else double_punct c)"
  by (simp add: punct_next_def)

lemma punct_next_sub_double_punct: "punct_next (sub_double_punct s) = punct_next s"
proof (induction s rule: sub_double_punct.induct)
  case 1
  then show ?case by simp
next
  case (2 c cs)
  show ?case
  proof (cases "punct_next (c # cs)")
    case True
    then obtain p r where m: "dropWhile isspace (c # cs) = p # r" "double_punct p"
      using punct_next_cases by blast
    then show ?thesis using True
      by (simp add: sub_double_punct_match punct_next_Cons double_punct_not_space)
  next
    case False
    then have "match_double_punct (c # cs) = None"
      by (rule match_double_punct_None)
    with 2 have IH: "punct_next (sub_double_punct cs) = punct_next cs" by simp
    show ?thesis using False IH
      by (auto simp: sub_double_punct_nomatch punct_next_Cons split: if_splits)
  qed
qed

lemma sub_double_punct_idem: "sub_double_punct (sub_double_punct s) = sub_double_punct s"
proof (induction s rule: sub_double_punct.induct)
  case 1
  then show ?case by simp
next
  case (2 c cs)
  show ?case
  proof (cases "punct_next (c # cs)")
    case True
    then obtain p r where m: "dropWhile isspace (c # cs) = p # r" "double_punct p"
      using punct_next_cases by blast
    then have mm: "match_double_punct (c # cs) = Some (p, r)"
      by (simp add: match_double_punct_eq)
    have IH: "sub_double_punct (sub_double_punct r) = sub_double_punct r"
      using 2 mm by simp
    have "dropWhile isspace (NBSP # p # sub_double_punct r) = p # sub_double_punct r"
      using m(2) by (simp add: double_punct_not_space)
    then have "sub_double_punct (NBSP # p # sub_double_punct r)
        = NBSP # p # sub_double_punct (sub_double_punct r)"
      using m(2) by (rule sub_double_punct_match)
    then show ?thesis using m IH by (simp add: sub_double_punct_match)
  next
    case False
    then have "match_double_punct (c # cs) = None"
      by (rule match_double_punct_None)
    with 2 have IH: "sub_double_punct (sub_double_punct cs) = sub_double_punct cs" by simp
    have "\<not> punct_next (c # sub_double_punct cs)"
      using False by (auto simp: punct_next_Cons punct_next_sub_double_punct split: if_splits)
    then show ?thesis using False IH by (simp add: sub_double_punct_nomatch)
  qed
qed

lemma sub_opening_guillemets_LGUIL:
  "sub_opening_guillemets (LGUIL # cs) = LGUIL # NBSP # sub_opening_guillemets (dropWhile isspace cs)"
  by (simp add: match_opening_guillemets_def)

lemma sub_opening_guillemets_other:
  "c \<noteq> LGUIL \<Longrightarrow> sub_opening_guillemets (c # cs) = c # sub_opening_guillemets cs"
  by (simp add: match_opening_guillemets_def)

declare sub_opening_guillemets.simps(2) [simp del]

lemma hd_sub_opening_guillemets:
  "\<exists>r. sub_opening_guillemets (c # cs) = c # r"
  by (cases "c = LGUIL") (simp_all add: sub_opening_guillemets_LGUIL sub_opening_guillemets_other)

lemma dropWhile_sub_opening_guillemets:
  "dropWhile isspace (sub_opening_guillemets s) = sub_opening_guillemets (dropWhile isspace s)"
proof (induction s)
  case Nil
  then show ?case by simp
next
  case (Cons c cs)
  show ?case
  proof (cases "isspace c")
    case True
    then have "c \<noteq> LGUIL" by auto
    then show ?thesis using True Cons by (simp add: sub_opening_guillemets_other)
  next
    case False
    obtain r where "sub_opening_guillemets (c # cs) = c # r"
      using hd_sub_opening_guillemets by blast
    then show ?thesis using False by simp
  qed
qed

lemma punct_next_sub_opening_guillemets:
  "punct_next (sub_opening_guillemets s) = punct_next s"
proof -
  have "punct_next (sub_opening_guillemets s) = punct_next (sub_opening_guillemets (dropWhile isspace s))"
    by (simp add: punct_next_def dropWhile_sub_opening_guillemets)
  also have "\<dots> = punct_next (dropWhile isspace s)"
  proof (cases "dropWhile isspace s")
    case Nil
    show ?thesis unfolding Nil by simp
  next
    case (Cons c cs)
    then have ns: "\<not> isspace c"
      by (metis hd_dropWhile list.sel(1) list.distinct(1))
    obtain r where "sub_opening_guillemets (c # cs) = c # r"
      using hd_sub_opening_guillemets by blast
    then show ?thesis using Cons ns by (simp add: punct_next_Cons)
  qed
  also have "\<dots> = punct_next s"
    by (simp add: punct_next_def)
  finally show ?thesis .
qed

lemma sub_opening_guillemets_idem:
  "sub_opening_guillemets (sub_opening_guillemets s) = sub_opening_guillemets s"
proof (induction s rule: sub_opening_guillemets.induct)
  case 1
  then show ?case by simp
next
  case (2 c cs)
  show ?case
  proof (cases "c = LGUIL")
    case True
    then have "match_opening_guillemets (c # cs) = Some (dropWhile isspace cs)"
      by (simp add: match_opening_guillemets_def)
    with 2 have IH: "sub_opening_guillemets (sub_opening_guillemets (dropWhile isspace cs))
        = sub_opening_guillemets (dropWhile isspace cs)" by simp
    show ?thesis using True IH
      by (simp add: sub_opening_guillemets_LGUIL dropWhile_sub_opening_guillemets)
  next
    case False
    then have "match_opening_guillemets (c # cs) = None"
      by (simp add: match_opening_guillemets_def)
    with 2 have "sub_opening_guillemets (sub_opening_guillemets cs) = sub_opening_guillemets cs"
      by simp
    then show ?thesis using False by (simp add: sub_opening_guillemets_other)
  qed
qed

lemma fixed_match:
  assumes "sub_double_punct s = s" and "dropWhile isspace s = p # r" and "double_punct p"
  shows "s = NBSP # p # r \<and> sub_double_punct r = r"
proof (cases s)
  case Nil
  then show ?thesis using assms by simp
next
  case (Cons c cs)
  then have e: "NBSP # p # sub_double_punct r = c # cs"
    using assms sub_double_punct_match by metis
  then have c: "c = NBSP" and cs: "cs = p # sub_double_punct r" by auto
  have "dropWhile isspace s = p # sub_double_punct r"
    using Cons c cs assms(3) by (simp add: double_punct_not_space)
  then have "sub_double_punct r = r" using assms(2) by simp
  then show ?thesis using Cons c cs by simp
qed

lemma fixed_nomatch:
  "sub_double_punct (c # cs) = c # cs \<Longrightarrow> \<not> punct_next (c # cs) \<Longrightarrow> sub_double_punct cs = cs"
  by (simp add: sub_double_punct_nomatch)

lemma fixed_dropWhile:
  "sub_double_punct s = s \<Longrightarrow> \<not> punct_next s \<Longrightarrow>
   sub_double_punct (dropWhile isspace s) = dropWhile isspace s"
proof (induction s)
  case Nil
  then show ?case by simp
next
  case (Cons c cs)
  show ?case
  proof (cases "isspace c")
    case True
    have "sub_double_punct cs = cs" using Cons.prems by (rule fixed_nomatch)
    moreover have "\<not> punct_next cs" using Cons.prems(2) True by (simp add: punct_next_Cons)
    ultimately show ?thesis using Cons.IH True by simp
  next
    case False
    then show ?thesis using Cons.prems by simp
  qed
qed

lemma fixed_sub_opening_guillemets:
  "sub_double_punct t = t \<Longrightarrow> sub_double_punct (sub_opening_guillemets t) = sub_opening_guillemets t"
proof (induction t rule: length_induct)
  case (1 t)
  note IH = 1(1) and fx = 1(2)
  show ?case
  proof (cases t)
    case Nil
    then show ?thesis by simp
  next
    case (Cons c cs)
    show ?thesis
    proof (cases "punct_next t")
      case True
      then obtain p r where m: "dropWhile isspace t = p # r" "double_punct p"
        using punct_next_cases by blast
      from fixed_match [OF fx m] have t: "t = NBSP # p # r" and r: "sub_double_punct r = r"
        by auto
      have "sub_double_punct (sub_opening_guillemets r) = sub_opening_guillemets r"
        using IH r t by simp
      moreover have "sub_opening_guillemets t = NBSP # p # sub_opening_guillemets r"
        using t m(2) by (simp add: sub_opening_guillemets_other double_punct_neq_LGUIL)
      moreover have "dropWhile isspace (NBSP # p # sub_opening_guillemets r) = p # sub_opening_guillemets r"
        using m(2) by (simp add: double_punct_not_space)
      ultimately show ?thesis using m(2) by (simp add: sub_double_punct_match)
    next
      case False
      have cs: "sub_double_punct cs = cs"
        using fx False Cons fixed_nomatch by simp
      show ?thesis
      proof (cases "c = LGUIL")
        case ne: False
        have "sub_double_punct (sub_opening_guillemets cs) = sub_opening_guillemets cs"
          using IH cs Cons by simp
        moreover have "\<not> punct_next (c # sub_opening_guillemets cs)"
          using False Cons
          by (auto simp: punct_next_Cons punct_next_sub_opening_guillemets split: if_splits)
        ultimately show ?thesis using ne Cons
          by (simp add: sub_opening_guillemets_other sub_double_punct_nomatch)
      next
        case eq: True
        let ?d = "dropWhile isspace cs"
        have s2: "sub_opening_guillemets t = LGUIL # NBSP # sub_opening_guillemets ?d"
          using eq Cons by (simp add: sub_opening_guillemets_LGUIL)
        have n1: "\<not> punct_next (LGUIL # NBSP # sub_opening_guillemets ?d)"
          by (simp add: punct_next_Cons)
        have pn: "punct_next (NBSP # sub_opening_guillemets ?d) = punct_next cs"
          by (simp add: punct_next_Cons punct_next_sub_opening_guillemets)
            (simp add: punct_next_def)
        have "sub_double_punct (NBSP # sub_opening_guillemets ?d) = NBSP # sub_opening_guillemets ?d"
        proof (cases "punct_next cs")
          case True
          then obtain p r where m: "dropWhile isspace cs = p # r" "double_punct p"
            using punct_next_cases by blast
          from fixed_match [OF cs m] have c2: "cs = NBSP # p # r" and r: "sub_double_punct r = r"
            by auto
          have ih: "sub_double_punct (sub_opening_guillemets r) = sub_opening_guillemets r"
            using IH r c2 Cons by simp
          have d: "sub_opening_guillemets ?d = p # sub_opening_guillemets r"
            using m by (simp add: sub_opening_guillemets_other double_punct_neq_LGUIL)
          have "dropWhile isspace (NBSP # p # sub_opening_guillemets r) = p # sub_opening_guillemets r"
            using m(2) by (simp add: double_punct_not_space)
          then show ?thesis using d ih m(2) by (simp add: sub_double_punct_match)
        next
          case False
          have "sub_double_punct ?d = ?d" using cs False by (rule fixed_dropWhile)
          moreover have "length ?d < length t"
            using Cons by (simp add: less_Suc_eq_le length_dropWhile_le)
          ultimately have "sub_double_punct (sub_opening_guillemets ?d) = sub_opening_guillemets ?d"
            using IH by blast
          then show ?thesis using False pn by (simp add: sub_double_punct_nomatch)
        qed
        then show ?thesis using s2 n1 by (simp add: sub_double_punct_nomatch)
      qed
    qed
  qed
qed

subsection \<open>Idempotence\<close>

text \<open>
  Claim C8. The Typography Normalizer is idempotent: for every string \<open>s\<close>, normalising
  the normalised string gives the normalised string again. The non-breaking space that the
  first run writes is whitespace for \<open>\s\<close>, so the second run replaces it by itself.
\<close>

theorem fix_french_punctuation_idempotent:
  "fix_french_punctuation (fix_french_punctuation s) = fix_french_punctuation s"
  by (simp add: fix_french_punctuation_def sub_double_punct_idem sub_opening_guillemets_idem
      fixed_sub_opening_guillemets)

subsection \<open>What the normalizer changes\<close>





















lemma ascii_Nil: "ascii [] = []"
  by (simp add: ascii_def)

lemma ascii_Cons: "ascii (c # cs) = of_char c # ascii cs"
  by (simp add: ascii_def)

lemma sub_double_punct_Cons:
  "sub_double_punct (c # cs) =
     (case dropWhile isspace (c # cs) of
        p # r \<Rightarrow> if double_punct p then NBSP # p # sub_double_punct r
                 else c # sub_double_punct cs
      | [] \<Rightarrow> c # sub_double_punct cs)"
proof (cases "dropWhile isspace (c # cs)")
  case Nil
  show ?thesis unfolding sub_double_punct.simps(2) match_double_punct_eq Nil by simp
next
  case (Cons p r)
  show ?thesis unfolding sub_double_punct.simps(2) match_double_punct_eq Cons by simp
qed

lemma sub_opening_guillemets_Cons:
  "sub_opening_guillemets (c # cs) =
     (if c = LGUIL then LGUIL # NBSP # sub_opening_guillemets (dropWhile isspace cs)
      else c # sub_opening_guillemets cs)"
  by (simp add: sub_opening_guillemets_LGUIL sub_opening_guillemets_other)

lemmas fix_eval =
  ascii_Nil ascii_Cons fix_french_punctuation_def sub_double_punct_Cons sub_opening_guillemets_Cons
  isspace_def double_punct_def NBSP_def LGUIL_def




section \<open>Properties of the document parser\<close>

subsection \<open>The sections that the parser returns\<close>

lemma close_section_Some:
  "current_section_info st = Some info \<Longrightarrow>
   close_section st = Inr (section_of info (current_section_content st))"
  by (simp add: close_section_def section_of_def)

lemma is_start_not_comment: "is_start line \<Longrightarrow> \<not> is_comment line"
  by (simp add: is_start_def)

lemma is_end_not_start: "is_end line \<Longrightarrow> \<not> is_comment line \<and> \<not> is_start line"
  by (simp add: is_end_def)

lemma parse_line_body:
  assumes "\<not> is_start line" and "\<not> is_end line"
  shows "\<exists>st'. parse_line L st line = Inr st' \<and>
     sections st' = sections st \<and> in_section st' = in_section st \<and>
     current_section_info st' = current_section_info st \<and>
     current_section_content st' =
       (if in_section st then current_section_content st @ [line]
        else current_section_content st)"
  using assms by (auto simp: parse_line_def Let_def split: option.splits prod.splits)

lemma parse_line_start:
  assumes "is_start line" and "current_section_info st = Some info \<or> \<not> in_section st"
  shows "\<exists>st'. parse_line L st line = Inr st' \<and>
     sections st' =
       (if in_section st then sections st @ [section_of info (current_section_content st)]
        else sections st) \<and>
     in_section st' \<and>
     current_section_info st'
       = Some (fst (open_section L (block_type_of line) (current_section_label st))) \<and>
     current_section_content st' = []"
proof (cases "in_section st")
  case True
  then have "close_section st = Inr (section_of info (current_section_content st))"
    using assms(2) by (simp add: close_section_Some)
  then show ?thesis
    using assms(1) True is_start_not_comment [OF assms(1)]
    by (simp add: parse_line_def Let_def block_type_of_def split: prod.splits)
next
  case False
  then show ?thesis
    using assms(1) is_start_not_comment [OF assms(1)]
    by (simp add: parse_line_def Let_def block_type_of_def split: prod.splits)
qed

lemma parse_line_end:
  assumes "is_end line" and "current_section_info st = Some info \<or> \<not> in_section st"
  shows "\<exists>st'. parse_line L st line = Inr st' \<and>
     sections st' =
       (if in_section st then sections st @ [section_of info (current_section_content st)]
        else sections st) \<and>
     \<not> in_section st' \<and>
     (in_section st \<longrightarrow> current_section_content st' = [])"
proof (cases "in_section st")
  case True
  then have "close_section st = Inr (section_of info (current_section_content st))"
    using assms(2) by (simp add: close_section_Some)
  then show ?thesis
    using assms(1) True is_end_not_start [OF assms(1)]
    by (simp add: parse_line_def Let_def)
next
  case False
  then show ?thesis
    using assms(1) is_end_not_start [OF assms(1)]
    by (simp add: parse_line_def Let_def)
qed

lemma parse_line_total:
  assumes "info_set st"
  shows "\<exists>st'. parse_line L st line = Inr st' \<and> info_set st'"
proof -
  obtain info where i: "current_section_info st = Some info \<or> \<not> in_section st"
    using assms by (auto simp: info_set_def)
  consider "is_start line" | "is_end line" | "\<not> is_start line" "\<not> is_end line"
    by blast
  then show ?thesis
  proof cases
    case 1
    from parse_line_start [OF 1 i, of L] show ?thesis by (auto simp: info_set_def)
  next
    case 2
    from parse_line_end [OF 2 i, of L] show ?thesis by (auto simp: info_set_def)
  next
    case 3
    from parse_line_body [OF 3, of L st] show ?thesis using assms by (auto simp: info_set_def)
  qed
qed

lemma parse_lines_append:
  "parse_lines L st (xs @ ys) =
     (case parse_lines L st xs of Inl e \<Rightarrow> Inl e | Inr st' \<Rightarrow> parse_lines L st' ys)"
  by (induction xs arbitrary: st) (auto split: sum.splits)

lemma parse_lines_total:
  "info_set st \<Longrightarrow> \<exists>st'. parse_lines L st ls = Inr st' \<and> info_set st'"
proof (induction ls arbitrary: st)
  case Nil
  then show ?case by simp
next
  case (Cons l ls)
  obtain st1 where "parse_line L st l = Inr st1" "info_set st1"
    using parse_line_total [OF Cons.prems] by blast
  then show ?case using Cons.IH [of st1] by simp
qed

lemma info_set_initial: "info_set initial_state"
  by (simp add: info_set_def initial_state_def)

lemma parse_lines_body:
  assumes "\<forall>l\<in>set body. \<not> is_start l \<and> \<not> is_end l"
  shows "\<exists>st'. parse_lines L st body = Inr st' \<and>
     sections st' = sections st \<and> in_section st' = in_section st \<and>
     current_section_info st' = current_section_info st \<and>
     current_section_content st' =
       (if in_section st then current_section_content st @ body
        else current_section_content st)"
  using assms
proof (induction body arbitrary: st)
  case Nil
  then show ?case by simp
next
  case (Cons l body)
  then have l: "\<not> is_start l" "\<not> is_end l" by simp_all
  obtain st1 where st1: "parse_line L st l = Inr st1" "sections st1 = sections st"
      "in_section st1 = in_section st" "current_section_info st1 = current_section_info st"
      "current_section_content st1 =
         (if in_section st then current_section_content st @ [l]
          else current_section_content st)"
    using parse_line_body [OF l, of L st] by blast
  obtain st' where "parse_lines L st1 body = Inr st'" "sections st' = sections st1"
      "in_section st' = in_section st1" "current_section_info st' = current_section_info st1"
      "current_section_content st' =
         (if in_section st1 then current_section_content st1 @ body
          else current_section_content st1)"
    using Cons.IH [of st1] Cons.prems by auto
  then show ?case using st1 by simp
qed

text \<open>The sections that are returned only grow.\<close>

lemma parse_line_sections_prefix:
  "info_set st \<Longrightarrow> parse_line L st line = Inr st' \<Longrightarrow>
   \<exists>more. sections st' = sections st @ more"
proof -
  assume a: "info_set st" "parse_line L st line = Inr st'"
  obtain info where i: "current_section_info st = Some info \<or> \<not> in_section st"
    using a(1) by (auto simp: info_set_def)
  consider "is_start line" | "is_end line" | "\<not> is_start line" "\<not> is_end line"
    by blast
  then show ?thesis
  proof cases
    case 1
    from parse_line_start [OF 1 i, of L] show ?thesis using a(2) by auto
  next
    case 2
    from parse_line_end [OF 2 i, of L] show ?thesis using a(2) by auto
  next
    case 3
    from parse_line_body [OF 3, of L st] show ?thesis using a(2) by auto
  qed
qed

lemma parse_lines_sections_prefix:
  "info_set st \<Longrightarrow> parse_lines L st ls = Inr st' \<Longrightarrow>
   \<exists>more. sections st' = sections st @ more"
proof (induction ls arbitrary: st)
  case Nil
  then show ?case by simp
next
  case (Cons l ls)
  obtain st1 where st1: "parse_line L st l = Inr st1" "info_set st1"
    using parse_line_total [OF Cons.prems(1)] by blast
  then obtain m1 where m1: "sections st1 = sections st @ m1"
    using parse_line_sections_prefix [OF Cons.prems(1)] by blast
  have "parse_lines L st1 ls = Inr st'" using Cons.prems(2) st1 by simp
  then obtain m2 where "sections st' = sections st1 @ m2"
    using Cons.IH [OF st1(2)] by blast
  then show ?case using m1 by simp
qed

lemma find_type_cases:
  "find_type tbl type_part d = d \<or> find_type tbl type_part d \<in> snd ` set tbl"
  by (induction tbl type_part d rule: find_type.induct) auto

lemma open_section_type:
  "info_type (fst (open_section L bt label)) = bt \<or>
   info_type (fst (open_section L bt label)) \<in> snd ` set label_to_type_map"
  using find_type_cases [of label_to_type_map _ bt]
  by (auto simp: open_section_def Let_def split: option.splits)

lemma label_to_type_map_values: "v \<in> snd ` set label_to_type_map \<Longrightarrow> v \<noteq> []"
  by (auto simp: label_to_type_map_def ascii_def)

lemma emitted_from_snoc: "emitted_from ls sec \<Longrightarrow> emitted_from (ls @ [l]) sec"
proof -
  assume "emitted_from ls sec"
  then obtain pre s body e post where d: "ls = pre @ s # body @ e # post" "is_start s"
      "is_start e \<or> is_end e" "\<forall>l\<in>set body. \<not> is_start l \<and> \<not> is_end l"
      "content sec = body" "raw_content sec = join_nl body"
      "type sec \<in> snd ` set label_to_type_map \<or> type sec = block_type_of s"
    unfolding emitted_from_def by blast
  have "ls @ [l] = pre @ s # body @ e # (post @ [l])" using d(1) by simp
  then show ?thesis unfolding emitted_from_def using d(2-7) by blast
qed

lemma parser_inv_initial: "parser_inv [] initial_state"
  by (simp add: parser_inv_def initial_state_def)

lemma parser_inv_info_set: "parser_inv seen st \<Longrightarrow> info_set st"
  by (auto simp: parser_inv_def info_set_def)

lemma parser_inv_closed:
  assumes "parser_inv seen st" and "in_section st" and "current_section_info st = Some info"
    and "is_start e \<or> is_end e"
  shows "emitted_from (seen @ [e]) (section_of info (current_section_content st))"
proof -
  obtain pre s where d: "seen = pre @ s # current_section_content st" "is_start s"
      "\<forall>l\<in>set (current_section_content st). \<not> is_start l \<and> \<not> is_end l"
      "info_type info \<in> snd ` set label_to_type_map \<or> info_type info = block_type_of s"
    using assms(1-3) unfolding parser_inv_def by auto
  have "seen @ [e] = pre @ s # current_section_content st @ e # []" using d(1) by simp
  then show ?thesis
    unfolding emitted_from_def using d(2-4) assms(4)
    by (simp add: section_of_def) blast
qed

lemma parser_inv_step:
  assumes inv: "parser_inv seen st" and step: "parse_line L st l = Inr st'"
  shows "parser_inv (seen @ [l]) st'"
proof -
  have old: "\<forall>sec\<in>set (sections st). emitted_from (seen @ [l]) sec"
    using inv by (auto simp: parser_inv_def intro: emitted_from_snoc)
  obtain info where i: "current_section_info st = Some info \<or> \<not> in_section st"
    using parser_inv_info_set [OF inv] by (auto simp: info_set_def)
  consider "is_start l" | "is_end l" | "\<not> is_start l" "\<not> is_end l"
    by blast
  then show ?thesis
  proof cases
    case 1
    from parse_line_start [OF 1 i, of L] step
    have s': "sections st' =
          (if in_section st then sections st @ [section_of info (current_section_content st)]
           else sections st)"
      and in': "in_section st'"
      and info': "current_section_info st'
          = Some (fst (open_section L (block_type_of l) (current_section_label st)))"
      and c': "current_section_content st' = []"
      by auto
    have new: "emitted_from (seen @ [l]) (section_of info (current_section_content st))"
      if "in_section st"
      using parser_inv_closed [OF inv that _ disjI1 [OF 1]] i that by simp
    have "\<forall>sec\<in>set (sections st'). emitted_from (seen @ [l]) sec"
      using s' old new by auto
    moreover have "\<exists>info pre s. current_section_info st' = Some info \<and>
        seen @ [l] = pre @ s # current_section_content st' \<and> is_start s \<and>
        (\<forall>l\<in>set (current_section_content st'). \<not> is_start l \<and> \<not> is_end l) \<and>
        (info_type info \<in> snd ` set label_to_type_map \<or> info_type info = block_type_of s)"
      using info' c' 1 open_section_type [of L "block_type_of l" "current_section_label st"]
      by auto
    ultimately show ?thesis unfolding parser_inv_def by simp
  next
    case 2
    from parse_line_end [OF 2 i, of L] step
    have s': "sections st' =
          (if in_section st then sections st @ [section_of info (current_section_content st)]
           else sections st)"
      and in': "\<not> in_section st'"
      by auto
    have new: "emitted_from (seen @ [l]) (section_of info (current_section_content st))"
      if "in_section st"
      using parser_inv_closed [OF inv that _ disjI2 [OF 2]] i that by simp
    have "\<forall>sec\<in>set (sections st'). emitted_from (seen @ [l]) sec"
      using s' old new by auto
    then show ?thesis unfolding parser_inv_def using in' by simp
  next
    case 3
    from parse_line_body [OF 3, of L st] step
    have s': "sections st' = sections st" and in': "in_section st' = in_section st"
      and info': "current_section_info st' = current_section_info st"
      and c': "current_section_content st' =
         (if in_section st then current_section_content st @ [l]
          else current_section_content st)"
      by auto
    have "\<exists>info pre s. current_section_info st' = Some info \<and>
        seen @ [l] = pre @ s # current_section_content st' \<and> is_start s \<and>
        (\<forall>l\<in>set (current_section_content st'). \<not> is_start l \<and> \<not> is_end l) \<and>
        (info_type info \<in> snd ` set label_to_type_map \<or> info_type info = block_type_of s)"
      if ins: "in_section st"
    proof -
      obtain info0 pre s where d: "current_section_info st = Some info0"
          "seen = pre @ s # current_section_content st" "is_start s"
          "\<forall>l\<in>set (current_section_content st). \<not> is_start l \<and> \<not> is_end l"
          "info_type info0 \<in> snd ` set label_to_type_map \<or> info_type info0 = block_type_of s"
        using inv ins unfolding parser_inv_def by auto
      have "seen @ [l] = pre @ s # current_section_content st'"
        using d(2) c' ins by simp
      moreover have "\<forall>x\<in>set (current_section_content st'). \<not> is_start x \<and> \<not> is_end x"
        using d(4) c' ins 3 by simp
      ultimately show ?thesis using d(1,3,5) info' by auto
    qed
    then show ?thesis unfolding parser_inv_def using s' in' old by simp
  qed
qed

lemma parser_inv_lines:
  "parser_inv seen st \<Longrightarrow> parse_lines L st ls = Inr st' \<Longrightarrow> parser_inv (seen @ ls) st'"
proof (induction ls arbitrary: seen st)
  case Nil
  then show ?case by simp
next
  case (Cons l ls)
  obtain st1 where st1: "parse_line L st l = Inr st1"
    using parse_line_total [OF parser_inv_info_set [OF Cons.prems(1)]] by blast
  have "parser_inv (seen @ [l]) st1" using Cons.prems(1) st1 by (rule parser_inv_step)
  moreover have "parse_lines L st1 ls = Inr st'" using Cons.prems(2) st1 by simp
  ultimately have "parser_inv ((seen @ [l]) @ ls) st'" by (rule Cons.IH)
  then show ?case by simp
qed

lemma parse_chordpro_file_lines:
  "parse_lines L initial_state (split_nl t) = Inr st \<Longrightarrow>
   parse_chordpro_file L t = Inr (metadata st, sections st)"
  by (simp add: parse_chordpro_file_def)

lemma parse_prefix:
  assumes "split_nl t = xs @ ys" and "xs \<noteq> []"
    and "parse_lines L initial_state xs = Inr st"
  shows "parse_chordpro_file L (join_nl xs) = Inr (metadata st, sections st)"
  using split_nl_join_prefix [OF assms(1,2)] assms(3) by (simp add: parse_chordpro_file_def)

text \<open>The states of the parser at a block: after the start marker, and after its lines.\<close>

lemma parse_block:
  assumes s: "is_start s" and body: "\<forall>l\<in>set body. \<not> is_start l \<and> \<not> is_end l"
  shows "\<exists>st1 st2 info.
     parse_lines L initial_state (pre @ [s]) = Inr st1 \<and>
     parse_lines L initial_state (pre @ s # body) = Inr st2 \<and>
     info_set st2 \<and> sections st2 = sections st1 \<and> in_section st2 \<and>
     current_section_info st2 = Some info \<and> current_section_content st2 = body"
proof -
  obtain st0 where st0: "parse_lines L initial_state pre = Inr st0" "info_set st0"
    using parse_lines_total [OF info_set_initial] by blast
  obtain info0 where i0: "current_section_info st0 = Some info0 \<or> \<not> in_section st0"
    using st0(2) by (auto simp: info_set_def)
  obtain st1 where st1: "parse_line L st0 s = Inr st1" "in_section st1"
      "current_section_info st1
         = Some (fst (open_section L (block_type_of s) (current_section_label st0)))"
      "current_section_content st1 = []"
    using parse_line_start [OF s i0, of L] by blast
  obtain st2 where st2: "parse_lines L st1 body = Inr st2" "sections st2 = sections st1"
      "in_section st2 = in_section st1" "current_section_info st2 = current_section_info st1"
      "current_section_content st2 =
         (if in_section st1 then current_section_content st1 @ body
          else current_section_content st1)"
    using parse_lines_body [OF body, of L st1] by blast
  have a: "parse_lines L initial_state (pre @ [s]) = Inr st1"
    using st0(1) st1(1) by (simp add: parse_lines_append)
  have "pre @ s # body = (pre @ [s]) @ body" by simp
  then have b: "parse_lines L initial_state (pre @ s # body) = Inr st2"
    using a st2(1) by (simp only: parse_lines_append) simp
  have "info_set st2" using st2(3,4) st1(2,3) by (simp add: info_set_def)
  then show ?thesis using a b st1 st2 by auto
qed

lemmas line_eval =
  is_comment_def is_start_def is_end_def is_directive_def startswith_def strip_def
  isspace_def ascii_Nil ascii_Cons

lemmas parse_eval =
  parse_chordpro_file_def parse_line_def line_eval NL_def Let_def close_section_def
  open_section_def initial_state_def

text \<open>
  Claim C3. When no end marker and no further start marker follows the last start marker
  \<open>s\<close> of a document, the parser does not emit the section that \<open>s\<close> opens: it returns
  the sections that it returns for the document cut off after \<open>s\<close>, so the lines \<open>rest\<close>
  after \<open>s\<close> are in none of them. A section that is open when a further start marker
  \<open>s2\<close> comes is closed and emitted at that marker: before \<open>s2\<close> it is not among the
  sections, after \<open>s2\<close> it is the last of them, with the lines \<open>body\<close> between the two
  markers as its content, and it stays in the result.
\<close>

theorem unterminated_section_not_emitted:
  "(split_nl t = pre @ s # rest \<and> is_start s \<and> (\<forall>l\<in>set rest. \<not> is_start l \<and> \<not> is_end l)
      \<longrightarrow> (\<exists>md md' secs.
            parse_chordpro_file L t = Inr (md, secs) \<and>
            parse_chordpro_file L (join_nl (pre @ [s])) = Inr (md', secs))) \<and>
   (split_nl t = pre @ s # body @ s2 # post \<and> is_start s \<and> is_start s2 \<and>
    (\<forall>l\<in>set body. \<not> is_start l \<and> \<not> is_end l)
      \<longrightarrow> (\<exists>md md1 md2 secs0 sec more.
            parse_chordpro_file L (join_nl (pre @ s # body)) = Inr (md1, secs0) \<and>
            parse_chordpro_file L (join_nl (pre @ s # body @ [s2])) = Inr (md2, secs0 @ [sec]) \<and>
            parse_chordpro_file L t = Inr (md, secs0 @ sec # more) \<and>
            content sec = body \<and> raw_content sec = join_nl body))"
proof (intro conjI impI)
  assume a: "split_nl t = pre @ s # rest \<and> is_start s \<and>
      (\<forall>l\<in>set rest. \<not> is_start l \<and> \<not> is_end l)"
  then obtain st1 st2 where st: "parse_lines L initial_state (pre @ [s]) = Inr st1"
      "parse_lines L initial_state (pre @ s # rest) = Inr st2" "sections st2 = sections st1"
    using parse_block [of s rest L pre] by auto
  have "split_nl t = (pre @ [s]) @ rest" using a by simp
  then have "parse_chordpro_file L (join_nl (pre @ [s])) = Inr (metadata st1, sections st1)"
    using st(1) by (intro parse_prefix) auto
  moreover have "parse_chordpro_file L t = Inr (metadata st2, sections st1)"
    using a st(2,3) by (simp add: parse_chordpro_file_def)
  ultimately show "\<exists>md md' secs. parse_chordpro_file L t = Inr (md, secs) \<and>
      parse_chordpro_file L (join_nl (pre @ [s])) = Inr (md', secs)"
    by blast
next
  assume a: "split_nl t = pre @ s # body @ s2 # post \<and> is_start s \<and> is_start s2 \<and>
      (\<forall>l\<in>set body. \<not> is_start l \<and> \<not> is_end l)"
  then obtain st1 st2 info where st: "parse_lines L initial_state (pre @ [s]) = Inr st1"
      "parse_lines L initial_state (pre @ s # body) = Inr st2" "info_set st2"
      "sections st2 = sections st1" "in_section st2" "current_section_info st2 = Some info"
      "current_section_content st2 = body"
    using parse_block [of s body L pre] by auto
  have s2: "is_start s2" using a by simp
  obtain st3 where st3: "parse_line L st2 s2 = Inr st3"
      "sections st3 = sections st2 @ [section_of info body]" "in_section st3"
      "current_section_info st3 \<noteq> None"
    using parse_line_start [OF s2 disjI1 [OF st(6)], of L] st(5,7) by auto
  have i3: "info_set st3" using st3(4) by (simp add: info_set_def)
  obtain st4 where st4: "parse_lines L st3 post = Inr st4"
    using parse_lines_total [OF i3] by blast
  obtain more where more: "sections st4 = sections st3 @ more"
    using parse_lines_sections_prefix [OF i3 st4] by blast
  have e3: "parse_lines L initial_state (pre @ s # body @ [s2]) = Inr st3"
  proof -
    have "pre @ s # body @ [s2] = (pre @ s # body) @ [s2]" by simp
    then show ?thesis using st(2) st3(1) by (simp only: parse_lines_append) simp
  qed
  have e4: "parse_lines L initial_state (split_nl t) = Inr st4"
  proof -
    have "split_nl t = (pre @ s # body @ [s2]) @ post" using a by simp
    then show ?thesis using e3 st4 by (simp only: parse_lines_append) simp
  qed
  have "split_nl t = (pre @ s # body) @ (s2 # post)" using a by simp
  then have p1: "parse_chordpro_file L (join_nl (pre @ s # body))
      = Inr (metadata st2, sections st2)"
    using st(2) by (intro parse_prefix) auto
  have "split_nl t = (pre @ s # body @ [s2]) @ post" using a by simp
  then have p2: "parse_chordpro_file L (join_nl (pre @ s # body @ [s2]))
      = Inr (metadata st3, sections st2 @ [section_of info body])"
    using e3 st3(2) parse_prefix [of t "pre @ s # body @ [s2]" post L st3] by simp
  have p3: "parse_chordpro_file L t
      = Inr (metadata st4, sections st2 @ section_of info body # more)"
    using parse_chordpro_file_lines [OF e4] more st3(2) by simp
  have "content (section_of info body) = body \<and>
      raw_content (section_of info body) = join_nl body"
    by (simp add: section_of_def)
  then show "\<exists>md md1 md2 secs0 sec more.
      parse_chordpro_file L (join_nl (pre @ s # body)) = Inr (md1, secs0) \<and>
      parse_chordpro_file L (join_nl (pre @ s # body @ [s2])) = Inr (md2, secs0 @ [sec]) \<and>
      parse_chordpro_file L t = Inr (md, secs0 @ sec # more) \<and>
      content sec = body \<and> raw_content sec = join_nl body"
    using p1 p2 p3 by blast
qed

theorem unterminated_section_not_emitted_witness:
  "\<forall>L. split_nl (join_nl [ascii ''{start_of_verse}'', ascii ''La'', ascii ''{start_of_chorus}'', ascii ''Mi''])
         = [] @ ascii ''{start_of_verse}'' # [ascii ''La''] @ ascii ''{start_of_chorus}'' # [ascii ''Mi''] \<and>
       is_start (ascii ''{start_of_verse}'') \<and> is_start (ascii ''{start_of_chorus}'') \<and>
       list_all (\<lambda>l. \<not> is_start l \<and> \<not> is_end l) [ascii ''La''] \<and>
       list_all (\<lambda>l. \<not> is_start l \<and> \<not> is_end l) [ascii ''Mi''] \<and>
       (\<exists>md md' secs.
          parse_chordpro_file L
            (join_nl [ascii ''{start_of_verse}'', ascii ''La'', ascii ''{start_of_chorus}'', ascii ''Mi''])
            = Inr (md, secs) \<and>
          parse_chordpro_file L
            (join_nl [ascii ''{start_of_verse}'', ascii ''La'', ascii ''{start_of_chorus}''])
            = Inr (md', secs)) \<and>
       (\<exists>md md1 md2 secs0 sec more.
          parse_chordpro_file L (join_nl [ascii ''{start_of_verse}'', ascii ''La''])
            = Inr (md1, secs0) \<and>
          parse_chordpro_file L
            (join_nl [ascii ''{start_of_verse}'', ascii ''La'', ascii ''{start_of_chorus}''])
            = Inr (md2, secs0 @ [sec]) \<and>
          parse_chordpro_file L
            (join_nl [ascii ''{start_of_verse}'', ascii ''La'', ascii ''{start_of_chorus}'', ascii ''Mi''])
            = Inr (md, secs0 @ sec # more) \<and>
          content sec = [ascii ''La''] \<and> raw_content sec = join_nl [ascii ''La'']) \<and>
       parse_chordpro_file L
         (join_nl [ascii ''{start_of_verse}'', ascii ''La'', ascii ''{start_of_chorus}'', ascii ''Mi''])
         = Inr (Map.empty,
                [\<lparr>name = str_title L (ascii ''verse''), type = ascii ''verse'', number = None,
                  content = [ascii ''La''], raw_content = ascii ''La''\<rparr>])"
proof
  fix L :: pylib
  let ?v = "ascii ''{start_of_verse}''" and ?c = "ascii ''{start_of_chorus}''"
  let ?t = "join_nl [?v, ascii ''La'', ?c, ascii ''Mi'']"
  have sp: "split_nl ?t = [] @ ?v # [ascii ''La''] @ ?c # [ascii ''Mi'']"
    by (simp add: ascii_Nil ascii_Cons NL_def)
  have sv: "is_start ?v" and sc: "is_start ?c" by (simp_all add: line_eval)
  have b1: "\<forall>l\<in>set [ascii ''La'']. \<not> is_start l \<and> \<not> is_end l"
    and b2: "\<forall>l\<in>set [ascii ''Mi'']. \<not> is_start l \<and> \<not> is_end l"
    by (simp_all add: line_eval)
  have sp1: "split_nl ?t = [?v, ascii ''La''] @ ?c # [ascii ''Mi'']" using sp by simp
  have r1: "\<exists>md md' secs. parse_chordpro_file L ?t = Inr (md, secs) \<and>
      parse_chordpro_file L (join_nl ([?v, ascii ''La''] @ [?c])) = Inr (md', secs)"
    using unterminated_section_not_emitted
      [where t = ?t and pre = "[?v, ascii ''La'']" and s = ?c and rest = "[ascii ''Mi'']"
         and L = L]
      sp1 sc b2 by blast
  have r2: "\<exists>md md1 md2 secs0 sec more.
      parse_chordpro_file L (join_nl ([] @ ?v # [ascii ''La''])) = Inr (md1, secs0) \<and>
      parse_chordpro_file L (join_nl ([] @ ?v # [ascii ''La''] @ [?c])) = Inr (md2, secs0 @ [sec]) \<and>
      parse_chordpro_file L ?t = Inr (md, secs0 @ sec # more) \<and>
      content sec = [ascii ''La''] \<and> raw_content sec = join_nl [ascii ''La'']"
    using unterminated_section_not_emitted
      [where t = ?t and pre = "[]" and s = ?v and body = "[ascii ''La'']" and ?s2.0 = ?c
         and post = "[ascii ''Mi'']" and L = L]
      sp sv sc b1 by blast
  have ev: "parse_chordpro_file L ?t
      = Inr (Map.empty,
             [\<lparr>name = str_title L (ascii ''verse''), type = ascii ''verse'', number = None,
               content = [ascii ''La''], raw_content = ascii ''La''\<rparr>])"
    by (simp add: parse_eval)
  show "split_nl ?t = [] @ ?v # [ascii ''La''] @ ?c # [ascii ''Mi''] \<and>
       is_start ?v \<and> is_start ?c \<and>
       list_all (\<lambda>l. \<not> is_start l \<and> \<not> is_end l) [ascii ''La''] \<and>
       list_all (\<lambda>l. \<not> is_start l \<and> \<not> is_end l) [ascii ''Mi''] \<and>
       (\<exists>md md' secs.
          parse_chordpro_file L ?t = Inr (md, secs) \<and>
          parse_chordpro_file L (join_nl [?v, ascii ''La'', ?c]) = Inr (md', secs)) \<and>
       (\<exists>md md1 md2 secs0 sec more.
          parse_chordpro_file L (join_nl [?v, ascii ''La'']) = Inr (md1, secs0) \<and>
          parse_chordpro_file L (join_nl [?v, ascii ''La'', ?c]) = Inr (md2, secs0 @ [sec]) \<and>
          parse_chordpro_file L ?t = Inr (md, secs0 @ sec # more) \<and>
          content sec = [ascii ''La''] \<and> raw_content sec = join_nl [ascii ''La'']) \<and>
       parse_chordpro_file L ?t
         = Inr (Map.empty,
                [\<lparr>name = str_title L (ascii ''verse''), type = ascii ''verse'', number = None,
                  content = [ascii ''La''], raw_content = ascii ''La''\<rparr>])"
    using sp sv sc b1 b2 r1 r2 ev by (simp del: join_nl.simps split_nl.simps)
qed

text \<open>
  Claim C5, as the specification states it, says that every emitted section has a
  non-empty type. The marker \<open>{start_of_}\<close> has an empty block type, and with no pending
  label the section that it opens is emitted with the empty type.
\<close>

theorem emitted_section_type_counterexample:
  "\<forall>L. \<exists>md sec.
     parse_chordpro_file L (join_nl [ascii ''{start_of_}'', ascii ''x'', ascii ''{end_of_}''])
       = Inr (md, [sec]) \<and>
     type sec = [] \<and> content sec = [ascii ''x'']"
  by (simp add: parse_eval)

text \<open>
  Claim C5, amended. Every section that the parser emits is a block of the document's
  lines: its content is the lines between a start marker \<open>s\<close> and the next start or end
  marker \<open>e\<close>, in their order and as they are written, and its raw content is these
  lines joined by newlines. Its type is a type of the synonym table or the stripped block
  type of \<open>s\<close>; it is empty only when that block type is empty.
\<close>

theorem emitted_section_block:
  assumes "parse_chordpro_file L t = Inr (md, secs)" and "sec \<in> set secs"
  shows "\<exists>pre s body e post.
     split_nl t = pre @ s # body @ e # post \<and> is_start s \<and> (is_start e \<or> is_end e) \<and>
     (\<forall>l\<in>set body. \<not> is_start l \<and> \<not> is_end l) \<and>
     content sec = body \<and> raw_content sec = join_nl body \<and>
     (type sec \<in> snd ` set label_to_type_map \<or>
      type sec = strip (butlast (drop 10 (strip s)))) \<and>
     (type sec = [] \<longrightarrow> strip (butlast (drop 10 (strip s))) = [])"
proof -
  obtain st where st: "parse_lines L initial_state (split_nl t) = Inr st" "secs = sections st"
    using assms(1) by (auto simp: parse_chordpro_file_def split: sum.splits)
  have "parser_inv ([] @ split_nl t) st"
    using parser_inv_initial st(1) by (rule parser_inv_lines)
  then have "emitted_from (split_nl t) sec"
    using assms(2) st(2) by (simp add: parser_inv_def)
  then obtain pre s body e post where d: "split_nl t = pre @ s # body @ e # post" "is_start s"
      "is_start e \<or> is_end e" "\<forall>l\<in>set body. \<not> is_start l \<and> \<not> is_end l"
      "content sec = body" "raw_content sec = join_nl body"
      "type sec \<in> snd ` set label_to_type_map \<or> type sec = block_type_of s"
    unfolding emitted_from_def by blast
  have "type sec = [] \<longrightarrow> block_type_of s = []"
    using d(7) label_to_type_map_values by auto
  then show ?thesis using d unfolding block_type_of_def by blast
qed

theorem emitted_section_block_witness:
  "\<forall>L. parse_chordpro_file L
         (join_nl [ascii ''{start_of_verse}'', ascii '' La '', ascii ''{end_of_verse}''])
         = Inr (Map.empty,
                [\<lparr>name = str_title L (ascii ''verse''), type = ascii ''verse'', number = None,
                  content = [ascii '' La ''], raw_content = ascii '' La ''\<rparr>]) \<and>
       (\<exists>pre s body e post.
          split_nl (join_nl [ascii ''{start_of_verse}'', ascii '' La '', ascii ''{end_of_verse}''])
            = pre @ s # body @ e # post \<and>
          is_start s \<and> (is_start e \<or> is_end e) \<and>
          (\<forall>l\<in>set body. \<not> is_start l \<and> \<not> is_end l) \<and>
          [ascii '' La ''] = body \<and> ascii '' La '' = join_nl body \<and>
          (ascii ''verse'' \<in> snd ` set label_to_type_map \<or>
           ascii ''verse'' = strip (butlast (drop 10 (strip s)))))"
proof
  fix L :: pylib
  let ?t = "join_nl [ascii ''{start_of_verse}'', ascii '' La '', ascii ''{end_of_verse}'']"
  let ?sec = "\<lparr>name = str_title L (ascii ''verse''), type = ascii ''verse'', number = None,
                  content = [ascii '' La ''], raw_content = ascii '' La ''\<rparr>"
  have ev: "parse_chordpro_file L ?t = Inr (Map.empty, [?sec])"
    by (simp add: parse_eval)
  have "?sec \<in> set [?sec]" by simp
  from emitted_section_block [OF ev this]
  have "\<exists>pre s body e post.
          split_nl ?t = pre @ s # body @ e # post \<and>
          is_start s \<and> (is_start e \<or> is_end e) \<and>
          (\<forall>l\<in>set body. \<not> is_start l \<and> \<not> is_end l) \<and>
          [ascii '' La ''] = body \<and> ascii '' La '' = join_nl body \<and>
          (ascii ''verse'' \<in> snd ` set label_to_type_map \<or>
           ascii ''verse'' = strip (butlast (drop 10 (strip s))))"
    by simp blast
  then show "parse_chordpro_file L ?t = Inr (Map.empty, [?sec]) \<and>
       (\<exists>pre s body e post.
          split_nl ?t = pre @ s # body @ e # post \<and>
          is_start s \<and> (is_start e \<or> is_end e) \<and>
          (\<forall>l\<in>set body. \<not> is_start l \<and> \<not> is_end l) \<and>
          [ascii '' La ''] = body \<and> ascii '' La '' = join_nl body \<and>
          (ascii ''verse'' \<in> snd ` set label_to_type_map \<or>
           ascii ''verse'' = strip (butlast (drop 10 (strip s)))))"
    using ev by blast
qed

text \<open>The parser returns for every text.\<close>

lemma parse_chordpro_file_total:
  "\<exists>md secs. parse_chordpro_file L t = Inr (md, secs)"
proof -
  obtain st where "parse_lines L initial_state (split_nl t) = Inr st"
    using parse_lines_total [OF info_set_initial] by blast
  then show ?thesis by (simp add: parse_chordpro_file_def)
qed

section \<open>Properties of the section deduplicator\<close>

subsection \<open>The index map\<close>

lemma dedup_inv_init:
  "dedup_inv L [] \<lparr>unique_sections = [], section_map = Map.empty, index_map = []\<rparr>"
  by (simp add: dedup_inv_def)

lemma dedup_inv_step:
  assumes inv: "dedup_inv L xs st"
  shows "dedup_inv L (xs @ [x]) (dedup_step L st x)"
proof -
  let ?h = "content_hash L x"
  let ?u = "unique_sections st"
  from inv have len: "length (index_map st) = length xs"
    and idx: "\<And>k. k < length xs \<Longrightarrow> index_map st ! k < length ?u \<and>
        content_hash L (?u ! (index_map st ! k)) = content_hash L (xs ! k)"
    and smap: "\<And>h i. section_map st h = Some i \<longleftrightarrow>
        i < length ?u \<and> content_hash L (?u ! i) = h"
    and dist: "distinct (map (content_hash L) ?u)"
    by (auto simp: dedup_inv_def)
  show ?thesis
  proof (cases "section_map st ?h")
    case (Some i)
    then have i: "i < length ?u" "content_hash L (?u ! i) = ?h" using smap by auto
    have st': "dedup_step L st x = st\<lparr>index_map := index_map st @ [i]\<rparr>"
      using Some by (simp add: dedup_step_def)
    have "(index_map st @ [i]) ! k < length ?u \<and>
        content_hash L (?u ! ((index_map st @ [i]) ! k)) = content_hash L ((xs @ [x]) ! k)"
      if "k < length (xs @ [x])" for k
      using that idx [of k] i len by (cases "k < length xs") (auto simp: nth_append)
    then show ?thesis
      unfolding st' dedup_inv_def using len smap dist by simp
  next
    case None
    have fresh: "?h \<notin> set (map (content_hash L) ?u)"
    proof
      assume "?h \<in> set (map (content_hash L) ?u)"
      then obtain i where "i < length ?u" "content_hash L (?u ! i) = ?h"
        by (auto simp: in_set_conv_nth)
      then have "section_map st ?h = Some i" using smap by simp
      then show False using None by simp
    qed
    have st': "dedup_step L st x =
        st\<lparr>section_map := (section_map st)(?h \<mapsto> length ?u),
           index_map := index_map st @ [length ?u],
           unique_sections := ?u @ [x]\<rparr>"
      using None by (simp add: dedup_step_def Let_def)
    have a: "(index_map st @ [length ?u]) ! k < length (?u @ [x]) \<and>
        content_hash L ((?u @ [x]) ! ((index_map st @ [length ?u]) ! k))
          = content_hash L ((xs @ [x]) ! k)"
      if "k < length (xs @ [x])" for k
      using that idx [of k] len by (cases "k < length xs") (auto simp: nth_append)
    have b: "((section_map st)(?h \<mapsto> length ?u)) h = Some i \<longleftrightarrow>
        i < length (?u @ [x]) \<and> content_hash L ((?u @ [x]) ! i) = h" for h i
    proof (cases "h = ?h")
      case True
      have "content_hash L (?u ! i) \<noteq> ?h" if "i < length ?u"
      proof
        assume "content_hash L (?u ! i) = ?h"
        then have "?h \<in> set (map (content_hash L) ?u)"
          using that by (metis length_map nth_map nth_mem)
        then show False using fresh by simp
      qed
      then show ?thesis using True by (auto simp: nth_append)
    next
      case False
      then show ?thesis using smap [of h i] by (auto simp: nth_append)
    qed
    have c: "distinct (map (content_hash L) (?u @ [x]))"
      using dist fresh by simp
    show ?thesis
      unfolding st' dedup_inv_def using len a b c by simp
  qed
qed

lemma dedup_inv_foldl:
  "dedup_inv L xs st \<Longrightarrow> dedup_inv L (xs @ ys) (foldl (dedup_step L) st ys)"
proof (induction ys arbitrary: xs st)
  case Nil
  then show ?case by simp
next
  case (Cons y ys)
  have "dedup_inv L ((xs @ [y]) @ ys) (foldl (dedup_step L) (dedup_step L st y) ys)"
    using Cons.prems by (intro Cons.IH dedup_inv_step)
  then show ?case by simp
qed

lemma dedup_inv_loop: "dedup_inv L secs (dedup_loop L secs)"
  using dedup_inv_foldl [OF dedup_inv_init, of L secs] by (simp add: dedup_loop_def)

lemma dedup_same_index:
  assumes "i < length secs" and "j < length secs"
  shows "index_map (dedup_loop L secs) ! i = index_map (dedup_loop L secs) ! j
     \<longleftrightarrow> content_hash L (secs ! i) = content_hash L (secs ! j)"
proof -
  let ?st = "dedup_loop L secs"
  let ?u = "unique_sections ?st"
  from dedup_inv_loop [of L secs]
  have idx: "\<And>k. k < length secs \<Longrightarrow> index_map ?st ! k < length ?u \<and>
        content_hash L (?u ! (index_map ?st ! k)) = content_hash L (secs ! k)"
    and dist: "distinct (map (content_hash L) ?u)"
    by (auto simp: dedup_inv_def)
  show ?thesis
  proof
    assume "index_map ?st ! i = index_map ?st ! j"
    then show "content_hash L (secs ! i) = content_hash L (secs ! j)"
      using idx [OF assms(1)] idx [OF assms(2)] by simp
  next
    assume "content_hash L (secs ! i) = content_hash L (secs ! j)"
    then have "map (content_hash L) ?u ! (index_map ?st ! i)
        = map (content_hash L) ?u ! (index_map ?st ! j)"
      using idx [OF assms(1)] idx [OF assms(2)] by simp
    moreover have "index_map ?st ! i < length (map (content_hash L) ?u)"
      and "index_map ?st ! j < length (map (content_hash L) ?u)"
      using idx [OF assms(1)] idx [OF assms(2)] by simp_all
    ultimately show "index_map ?st ! i = index_map ?st ! j"
      using nth_eq_iff_index_eq [OF dist] by blast
  qed
qed

lemma strip_Nil: "strip [] = []"
  by (simp add: strip_def)

lemmas dedup_eval =
  deduplicate_sections_def dedup_loop_def dedup_step_def content_hash_def content_lines_def
  verse_of_def startswith_def strip_def isspace_def ascii_Nil ascii_Cons NL_def

text \<open>
  Claim C1, as the specification states it, says that two sections receive the same
  canonical index only if their non-comment lines are identical line for line. A section
  without lines and a section with one empty line are not, and they receive the same
  index whatever the digest is: both join to the empty text.
\<close>

theorem deduplicate_sections_counterexample:
  "\<forall>L. deduplicate_sections L [verse_of [], verse_of [[]]] = ([verse_of []], [0, 0]) \<and>
       content_lines (verse_of []) = [] \<and> content_lines (verse_of [[]]) = [[]] \<and>
       content_lines (verse_of []) \<noteq> content_lines (verse_of [[]])"
  by (simp add: dedup_eval)

text \<open>
  Claim C1, amended. For every section sequence, the index map has one entry for each
  original section, every entry is a valid index into the unique sections, and two
  original sections receive the same index if and only if the digests of their
  non-comment lines, joined by newlines, are equal. When the digest has no collision among
  the joined texts of the sequence, that is if and only if the joined texts are equal;
  and when, moreover, no line contains a newline (as after \<open>split\<close>), if and only if the
  non-comment lines are identical line for line, where a section without non-comment
  lines counts as a section with one empty line.
\<close>

theorem deduplicate_sections_index_map:
  assumes "deduplicate_sections L secs = (uniq, idx_map)"
  shows
    "length idx_map = length secs \<and>
     (\<forall>k<length secs. idx_map ! k < length uniq) \<and>
     (\<forall>i<length secs. \<forall>j<length secs.
        idx_map ! i = idx_map ! j
          \<longleftrightarrow> content_hash L (secs ! i) = content_hash L (secs ! j)) \<and>
     (inj_on (md5_hexdigest L) ((\<lambda>s. join_nl (content_lines s)) ` set secs) \<longrightarrow>
        (\<forall>i<length secs. \<forall>j<length secs.
           idx_map ! i = idx_map ! j
             \<longleftrightarrow> join_nl (content_lines (secs ! i)) = join_nl (content_lines (secs ! j)))) \<and>
     (inj_on (md5_hexdigest L) ((\<lambda>s. join_nl (content_lines s)) ` set secs) \<and>
      (\<forall>s\<in>set secs. \<forall>l\<in>set (content s). NL \<notin> set l) \<longrightarrow>
        (\<forall>i<length secs. \<forall>j<length secs.
           idx_map ! i = idx_map ! j
             \<longleftrightarrow> lines_or_blank (secs ! i) = lines_or_blank (secs ! j)))"
proof -
  have u: "uniq = unique_sections (dedup_loop L secs)"
    and m: "idx_map = index_map (dedup_loop L secs)"
    using assms by (simp_all add: deduplicate_sections_def)
  from dedup_inv_loop [of L secs]
  have len: "length idx_map = length secs"
    and idx: "\<And>k. k < length secs \<Longrightarrow> idx_map ! k < length uniq"
    unfolding u m by (auto simp: dedup_inv_def)
  have same: "idx_map ! i = idx_map ! j
      \<longleftrightarrow> content_hash L (secs ! i) = content_hash L (secs ! j)"
    if "i < length secs" "j < length secs" for i j
    unfolding m using that by (rule dedup_same_index)
  have joined: "idx_map ! i = idx_map ! j
      \<longleftrightarrow> join_nl (content_lines (secs ! i)) = join_nl (content_lines (secs ! j))"
    if inj: "inj_on (md5_hexdigest L) ((\<lambda>s. join_nl (content_lines s)) ` set secs)"
      and "i < length secs" "j < length secs" for i j
  proof -
    have "join_nl (content_lines (secs ! i)) \<in> (\<lambda>s. join_nl (content_lines s)) ` set secs"
      and "join_nl (content_lines (secs ! j)) \<in> (\<lambda>s. join_nl (content_lines s)) ` set secs"
      using that by simp_all
    then have "content_hash L (secs ! i) = content_hash L (secs ! j)
        \<longleftrightarrow> join_nl (content_lines (secs ! i)) = join_nl (content_lines (secs ! j))"
      unfolding content_hash_def using inj by (simp add: inj_on_eq_iff)
    then show ?thesis using same that by simp
  qed
  have lines: "idx_map ! i = idx_map ! j
      \<longleftrightarrow> lines_or_blank (secs ! i) = lines_or_blank (secs ! j)"
    if inj: "inj_on (md5_hexdigest L) ((\<lambda>s. join_nl (content_lines s)) ` set secs)"
      and nl: "\<forall>s\<in>set secs. \<forall>l\<in>set (content s). NL \<notin> set l"
      and "i < length secs" "j < length secs" for i j
  proof -
    have "secs ! i \<in> set secs" and "secs ! j \<in> set secs"
      using that by simp_all
    then have "\<forall>l\<in>set (content_lines (secs ! i)). NL \<notin> set l"
      and "\<forall>l\<in>set (content_lines (secs ! j)). NL \<notin> set l"
      using nl by (auto simp: content_lines_def)
    then show ?thesis
      using joined [OF inj that(3,4)] by (simp only: join_nl_eq_iff lines_or_blank_def)
  qed
  show ?thesis using len idx same joined lines by blast
qed

theorem deduplicate_sections_index_map_witness:
  "deduplicate_sections ascii_lib
     [verse_of [ascii ''La''], verse_of [ascii ''Mi''], verse_of [ascii '' {c: x}'', ascii ''La'']]
     = ([verse_of [ascii ''La''], verse_of [ascii ''Mi'']], [0, 1, 0]) \<and>
   inj_on (md5_hexdigest ascii_lib)
     ((\<lambda>s. join_nl (content_lines s)) `
        set [verse_of [ascii ''La''], verse_of [ascii ''Mi''],
             verse_of [ascii '' {c: x}'', ascii ''La'']]) \<and>
   list_all (\<lambda>s. list_all (\<lambda>l. NL \<notin> set l) (content s))
     [verse_of [ascii ''La''], verse_of [ascii ''Mi''], verse_of [ascii '' {c: x}'', ascii ''La'']] \<and>
   lines_or_blank (verse_of [ascii ''La'']) = lines_or_blank (verse_of [ascii '' {c: x}'', ascii ''La'']) \<and>
   lines_or_blank (verse_of [ascii ''La'']) \<noteq> lines_or_blank (verse_of [ascii ''Mi'']) \<and>
   length [0, 1, 0 :: nat] = 3 \<and> [0, 1, 0 :: nat] ! 0 = [0, 1, 0] ! 2 \<and>
   [0, 1, 0 :: nat] ! 0 \<noteq> [0, 1, 0] ! 1"
proof -
  let ?secs = "[verse_of [ascii ''La''], verse_of [ascii ''Mi''],
                verse_of [ascii '' {c: x}'', ascii ''La'']]"
  have d: "deduplicate_sections ascii_lib ?secs
      = ([verse_of [ascii ''La''], verse_of [ascii ''Mi'']], [0, 1, 0])"
    by (simp add: dedup_eval ascii_lib_def)
  have inj: "inj_on (md5_hexdigest ascii_lib) ((\<lambda>s. join_nl (content_lines s)) ` set ?secs)"
    by (simp add: ascii_lib_def)
  have nl: "\<forall>s\<in>set ?secs. \<forall>l\<in>set (content s). NL \<notin> set l"
    by (simp add: verse_of_def ascii_Nil ascii_Cons NL_def)
  note t = deduplicate_sections_index_map [OF d]
  from t inj nl
  have q: "\<forall>i<length ?secs. \<forall>j<length ?secs.
      [0, 1, 0 :: nat] ! i = [0, 1, 0] ! j
        \<longleftrightarrow> lines_or_blank (?secs ! i) = lines_or_blank (?secs ! j)"
    by blast
  have a: "lines_or_blank (verse_of [ascii ''La''])
      = lines_or_blank (verse_of [ascii '' {c: x}'', ascii ''La''])"
    using q [rule_format, of 0 2] by simp
  have b: "lines_or_blank (verse_of [ascii ''La'']) \<noteq> lines_or_blank (verse_of [ascii ''Mi''])"
    using q [rule_format, of 0 1] by simp
  have "list_all (\<lambda>s. list_all (\<lambda>l. NL \<notin> set l) (content s)) ?secs"
    using nl by (simp add: list_all_iff)
  then show ?thesis using d inj a b by simp
qed

section \<open>Properties of the chord extractor\<close>

subsection \<open>The stripped text\<close>

lemma finditer_chord_match:
  "match_chord (c # cs) = Some (g, r) \<Longrightarrow>
   finditer_chord i (c # cs) = (i, g) # finditer_chord (i + length g + 2) r"
  by simp

lemma finditer_chord_nomatch:
  "match_chord (c # cs) = None \<Longrightarrow> finditer_chord i (c # cs) = finditer_chord (i + 1) cs"
  by simp



declare finditer_chord.simps(2) [simp del]

declare sub_chord.simps(2) [simp del]

lemma markup_length_simps [simp]:
  "markup_length [] = 0"
  "markup_length ((p, g) # ms) = length g + 2 + markup_length ms"
  by (simp_all add: markup_length_def ascii_def)








subsection \<open>The display offsets\<close>

lemma adjust_pos_all_before:
  "\<forall>c\<in>set cs. c_original_pos c < p \<Longrightarrow> adjust_pos cs p a = a - removed_len cs"
  by (induction cs arbitrary: a) (simp_all add: removed_len_def)

lemma finditer_chord_lower: "m \<in> set (finditer_chord i s) \<Longrightarrow> i \<le> fst m"
proof (induction i s rule: finditer_chord.induct)
  case (1 i)
  then show ?case by simp
next
  case (2 i c cs)
  show ?case
  proof (cases "match_chord (c # cs)")
    case None
    then have "m \<in> set (finditer_chord (i + 1) cs)"
      using 2(3) by (simp add: finditer_chord_nomatch)
    then have "i + 1 \<le> fst m" using 2 None by simp
    then show ?thesis by simp
  next
    case (Some x)
    obtain g r where x: "x = (g, r)" by (cases x)
    have "m = (i, g) \<or> m \<in> set (finditer_chord (i + length g + 2) r)"
      using 2(3) Some x by (simp add: finditer_chord_match)
    then show ?thesis
    proof
      assume "m = (i, g)"
      then show ?thesis by simp
    next
      assume "m \<in> set (finditer_chord (i + length g + 2) r)"
      then have "i + length g + 2 \<le> fst m" using 2 Some x by simp
      then show ?thesis by simp
    qed
  qed
qed

lemma finditer_chord_sorted: "sorted_wrt (\<lambda>a b. fst a < fst b) (finditer_chord i s)"
proof (induction i s rule: finditer_chord.induct)
  case (1 i)
  then show ?case by simp
next
  case (2 i c cs)
  show ?case
  proof (cases "match_chord (c # cs)")
    case None
    then show ?thesis using 2 by (simp add: finditer_chord_nomatch)
  next
    case (Some x)
    obtain g r where x: "x = (g, r)" by (cases x)
    have "sorted_wrt (\<lambda>a b. fst a < fst b) (finditer_chord (i + length g + 2) r)"
      using 2 Some x by simp
    moreover have "i < fst m" if "m \<in> set (finditer_chord (i + length g + 2) r)" for m
      using finditer_chord_lower [OF that] by simp
    ultimately show ?thesis using Some x by (simp add: finditer_chord_match)
  qed
qed

lemma finditer_chord_placed:
  "m \<in> set (finditer_chord i s) \<Longrightarrow>
   take (length (snd m) + 2) (drop (fst m - i) s) = ascii ''['' @ snd m @ ascii '']''"
proof (induction i s rule: finditer_chord.induct)
  case (1 i)
  then show ?case by simp
next
  case (2 i c cs)
  show ?case
  proof (cases "match_chord (c # cs)")
    case None
    then have in1: "m \<in> set (finditer_chord (i + 1) cs)"
      using 2(3) by (simp add: finditer_chord_nomatch)
    then have "take (length (snd m) + 2) (drop (fst m - (i + 1)) cs) = ascii ''['' @ snd m @ ascii '']''"
      using 2 None by simp
    moreover have "i + 1 \<le> fst m" using in1 by (rule finditer_chord_lower)
    then have "fst m - i = Suc (fst m - (i + 1))" by simp
    ultimately show ?thesis by simp
  next
    case (Some x)
    obtain g r where x: "x = (g, r)" by (cases x)
    have s: "c # cs = (91 # g @ [93]) @ r"
      using match_chord_shape [of "c # cs" g r] Some x by simp
    have "m = (i, g) \<or> m \<in> set (finditer_chord (i + length g + 2) r)"
      using 2(3) Some x by (simp add: finditer_chord_match)
    then show ?thesis
    proof
      assume "m = (i, g)"
      then show ?thesis unfolding s by (simp add: ascii_def)
    next
      assume in2: "m \<in> set (finditer_chord (i + length g + 2) r)"
      then have "take (length (snd m) + 2) (drop (fst m - (i + length g + 2)) r)
          = ascii ''['' @ snd m @ ascii '']''"
        using 2 Some x by simp
      moreover have "i + length g + 2 \<le> fst m" using in2 by (rule finditer_chord_lower)
      then have "fst m - i = length (91 # g @ [93]) + (fst m - (i + length g + 2))" by simp
      then have "drop (fst m - i) (c # cs) = drop (fst m - (i + length g + 2)) r"
        unfolding s by (simp only: drop_append) simp
      ultimately show ?thesis by simp
    qed
  qed
qed

lemma foldl_chord_step_nth:
  "sorted_wrt (\<lambda>a b. fst a < fst b) ms \<Longrightarrow>
   length (foldl (chord_step L) [] ms) = length ms \<and>
   (\<forall>k<length ms.
      c_original_pos (foldl (chord_step L) [] ms ! k) = int (fst (ms ! k)) \<and>
      c_chord (foldl (chord_step L) [] ms ! k) = snd (ms ! k) \<and>
      c_pos (foldl (chord_step L) [] ms ! k)
        = max 0 (int (fst (ms ! k)) - removed_len (take k (foldl (chord_step L) [] ms))))"
proof (induction ms rule: rev_induct)
  case Nil
  then show ?case by simp
next
  case (snoc m ms)
  let ?R = "foldl (chord_step L) [] ms"
  obtain p g where m: "m = (p, g)" by (cases m)
  have so: "sorted_wrt (\<lambda>a b. fst a < fst b) ms" and lt: "\<forall>a\<in>set ms. fst a < p"
    using snoc.prems m by (auto simp: sorted_wrt_append)
  from snoc.IH [OF so] have len: "length ?R = length ms"
    and nth: "\<And>k. k < length ms \<Longrightarrow>
      c_original_pos (?R ! k) = int (fst (ms ! k)) \<and>
      c_chord (?R ! k) = snd (ms ! k) \<and>
      c_pos (?R ! k) = max 0 (int (fst (ms ! k)) - removed_len (take k ?R))"
    by auto
  have before: "\<forall>c\<in>set ?R. c_original_pos c < int p"
  proof
    fix c assume "c \<in> set ?R"
    then obtain k where k: "k < length ?R" "c = ?R ! k" by (auto simp: in_set_conv_nth)
    then have "c_original_pos c = int (fst (ms ! k))" using nth len by simp
    moreover have "fst (ms ! k) < p" using lt k len by simp
    ultimately show "c_original_pos c < int p" by simp
  qed
  define e where "e = \<lparr>c_id = take 5 (md5_hexdigest L (g @ str_nat p)),
            c_pos = max 0 (int p - removed_len ?R),
            c_key = g, c_chord = g, c_original_pos = int p\<rparr>"
  have R': "foldl (chord_step L) [] (ms @ [m]) = ?R @ [e]"
    using adjust_pos_all_before [OF before, of "int p"] m
    by (simp add: chord_step_def e_def)
  show ?case
  proof (intro conjI allI impI)
    show "length (foldl (chord_step L) [] (ms @ [m])) = length (ms @ [m])"
      unfolding R' using len by simp
    fix k assume k: "k < length (ms @ [m])"
    show "c_original_pos (foldl (chord_step L) [] (ms @ [m]) ! k) = int (fst ((ms @ [m]) ! k))"
      unfolding R' using k nth len m by (cases "k < length ms") (simp_all add: nth_append e_def)
    show "c_chord (foldl (chord_step L) [] (ms @ [m]) ! k) = snd ((ms @ [m]) ! k)"
      unfolding R' using k nth len m by (cases "k < length ms") (simp_all add: nth_append e_def)
    show "c_pos (foldl (chord_step L) [] (ms @ [m]) ! k)
        = max 0 (int (fst ((ms @ [m]) ! k))
            - removed_len (take k (foldl (chord_step L) [] (ms @ [m]))))"
      unfolding R' using k nth len m by (cases "k < length ms") (simp_all add: nth_append e_def)
  qed
qed

text \<open>
  Claim C7. For every content line and every chord \<open>k\<close> that the Chord Extractor returns,
  the display offset \<open>pos\<close> is the offset of the chord's bracket in the line minus the
  total length of the bracket markup of the chords returned before it, with zero as a
  floor, and it is not negative. The offset \<open>original_pos\<close> is where \<open>[chord]\<close> stands in
  the line, and the chords returned before it stand to its left.
\<close>

theorem chord_display_offset:
  assumes "k < length (fst (parse_chord_line L line))"
  shows
    "c_pos (fst (parse_chord_line L line) ! k)
       = max 0 (c_original_pos (fst (parse_chord_line L line) ! k)
           - (\<Sum>c\<leftarrow>take k (fst (parse_chord_line L line)).
                int (length (ascii ''['' @ c_chord c @ ascii '']'')))) \<and>
     0 \<le> c_pos (fst (parse_chord_line L line) ! k) \<and>
     0 \<le> c_original_pos (fst (parse_chord_line L line) ! k) \<and>
     take (length (c_chord (fst (parse_chord_line L line) ! k)) + 2)
          (drop (nat (c_original_pos (fst (parse_chord_line L line) ! k))) line)
       = ascii ''['' @ c_chord (fst (parse_chord_line L line) ! k) @ ascii '']'' \<and>
     (\<forall>j<k. c_original_pos (fst (parse_chord_line L line) ! j)
             < c_original_pos (fst (parse_chord_line L line) ! k))"
proof -
  let ?ms = "finditer_chord 0 line"
  let ?R = "foldl (chord_step L) [] ?ms"
  have R: "fst (parse_chord_line L line) = ?R" by (simp add: parse_chord_line_def)
  have so: "sorted_wrt (\<lambda>a b. fst a < fst b) ?ms" by (rule finditer_chord_sorted)
  from foldl_chord_step_nth [OF so, of L] have len: "length ?R = length ?ms"
    and nth: "\<And>k. k < length ?ms \<Longrightarrow>
      c_original_pos (?R ! k) = int (fst (?ms ! k)) \<and>
      c_chord (?R ! k) = snd (?ms ! k) \<and>
      c_pos (?R ! k) = max 0 (int (fst (?ms ! k)) - removed_len (take k ?R))"
    by auto
  have k: "k < length ?ms" using assms R len by simp
  have mem: "?ms ! k \<in> set ?ms" using k by simp
  have placed: "take (length (snd (?ms ! k)) + 2) (drop (fst (?ms ! k)) line)
      = ascii ''['' @ snd (?ms ! k) @ ascii '']''"
    using finditer_chord_placed [OF mem] by simp
  have earlier: "c_original_pos (?R ! j) < c_original_pos (?R ! k)" if "j < k" for j
  proof -
    have "fst (?ms ! j) < fst (?ms ! k)"
      using so that k by (simp add: sorted_wrt_iff_nth_less)
    then show ?thesis using nth [of j] nth [of k] that k by simp
  qed
  show ?thesis
    unfolding R using nth [OF k] placed earlier by (simp add: removed_len_def)
qed

lemmas chord_eval =
  ascii_Nil ascii_Cons parse_chord_line_def finditer_chord.simps(2) sub_chord.simps(2) match_chord_def chord_step_def

lemma chord_example:
  "map c_original_pos (fst (parse_chord_line L (ascii ''ab[C]de[G]f''))) = [2, 7] \<and>
   map c_chord (fst (parse_chord_line L (ascii ''ab[C]de[G]f''))) = [ascii ''C'', ascii ''G'']"
  by (simp add: chord_eval)

theorem chord_display_offset_witness:
  "\<forall>L. 1 < length (fst (parse_chord_line L (ascii ''ab[C]de[G]f''))) \<and>
       c_original_pos (fst (parse_chord_line L (ascii ''ab[C]de[G]f'')) ! 1) = 7 \<and>
       (\<Sum>c\<leftarrow>take 1 (fst (parse_chord_line L (ascii ''ab[C]de[G]f''))).
           int (length (ascii ''['' @ c_chord c @ ascii '']''))) = 3 \<and>
       c_pos (fst (parse_chord_line L (ascii ''ab[C]de[G]f'')) ! 1) = max 0 (7 - 3) \<and>
       take 3 (drop 7 (ascii ''ab[C]de[G]f'')) = ascii ''[G]''"
proof
  fix L
  let ?cs = "fst (parse_chord_line L (ascii ''ab[C]de[G]f''))"
  have "length (map c_original_pos ?cs) = 2" by (simp only: chord_example) simp
  then have len: "1 < length ?cs" by simp
  have "map c_original_pos ?cs ! 1 = 7" by (simp only: chord_example) simp
  then have o: "c_original_pos (?cs ! 1) = 7" using len by simp
  have "map c_chord ?cs ! 1 = ascii ''G''" by (simp only: chord_example) simp
  then have g: "c_chord (?cs ! 1) = ascii ''G''" using len by simp
  have "map c_chord (take 1 ?cs) = [ascii ''C'']"
    unfolding take_map [symmetric] by (simp only: chord_example) simp
  then have "(\<Sum>c\<leftarrow>map c_chord (take 1 ?cs). int (length (ascii ''['' @ c @ ascii '']''))) = 3"
    by (simp add: ascii_def)
  then have r: "(\<Sum>c\<leftarrow>take 1 ?cs. int (length (ascii ''['' @ c_chord c @ ascii '']''))) = 3"
    by (simp add: comp_def)
  from chord_display_offset [OF len]
  have "c_pos (?cs ! 1) = max 0 (7 - 3)"
    and "take 3 (drop 7 (ascii ''ab[C]de[G]f'')) = ascii ''[G]''"
    unfolding o r g by (simp_all add: ascii_def)
  then show "1 < length ?cs \<and> c_original_pos (?cs ! 1) = 7 \<and>
       (\<Sum>c\<leftarrow>take 1 ?cs. int (length (ascii ''['' @ c_chord c @ ascii '']''))) = 3 \<and>
       c_pos (?cs ! 1) = max 0 (7 - 3) \<and>
       take 3 (drop 7 (ascii ''ab[C]de[G]f'')) = ascii ''[G]''"
    using len o r by simp
qed

section \<open>Properties of the show synthesizer\<close>

subsection \<open>Comment lines in the slide builder\<close>

lemma slide_lines_append:
  "slide_lines L (xs @ ys) = slide_lines L xs @ slide_lines L ys"
  by (induction xs) simp_all

lemma slide_lines_member:
  "l \<in> set ls \<Longrightarrow> \<not> startswith l (ascii ''{c:'') \<Longrightarrow> strip l \<noteq> [] \<Longrightarrow>
   display_line L l \<in> set (slide_lines L ls)"
  by (induction ls) auto

lemma not_startswith_space:
  assumes "l \<noteq> []" and "isspace (hd l)"
  shows "\<not> startswith l (ascii ''{c:'')"
proof
  assume "startswith l (ascii ''{c:'')"
  then have "hd l = 123"
    using assms(1) by (cases l) (simp_all add: startswith_def ascii_def)
  then show False using assms(2) by (simp add: isspace_def)
qed

text \<open>
  Claim C10. A content line whose stripped form starts with \<open>{c:\<close> and which has
  whitespace before the brace is left out of the content fingerprint by the Section
  Deduplicator, which tests the stripped line, while the slide builder, which tests the
  line as it is, does not skip it and renders it as a display line.
\<close>

theorem indented_comment_line:
  assumes "l \<in> set (content sec)" and "startswith (strip l) (ascii ''{c:'')"
    and "l \<noteq> []" and "isspace (hd l)"
  shows "l \<notin> set (content_lines sec) \<and>
     \<not> startswith l (ascii ''{c:'') \<and>
     display_line L l \<in> set (s_lines (create_freeshow_slide L sec))"
proof -
  have a: "l \<notin> set (content_lines sec)"
    using assms(2) by (simp add: content_lines_def)
  have b: "\<not> startswith l (ascii ''{c:'')"
    using assms(3,4) by (rule not_startswith_space)
  have "strip l \<noteq> []"
    using assms(2) by (auto simp: startswith_def ascii_def)
  then have "display_line L l \<in> set (slide_lines L (content sec))"
    using assms(1) b by (intro slide_lines_member)
  then show ?thesis using a b by (simp add: create_freeshow_slide_def)
qed

lemmas slide_eval =
  create_freeshow_slide_def display_line_def sub_enumeration_def match_enumeration_def
  chord_eval fix_eval startswith_def strip_def

theorem indented_comment_line_witness:
  "\<forall>L. ascii '' {c: hi}'' \<in> set (content (verse_of [ascii '' {c: hi}'', ascii ''La''])) \<and>
       startswith (strip (ascii '' {c: hi}'')) (ascii ''{c:'') \<and>
       isspace (hd (ascii '' {c: hi}'')) \<and>
       content_lines (verse_of [ascii '' {c: hi}'', ascii ''La'']) = [ascii ''La''] \<and>
       display_line L (ascii '' {c: hi}'')
         \<in> set (s_lines (create_freeshow_slide L (verse_of [ascii '' {c: hi}'', ascii ''La'']))) \<and>
       map l_text (s_lines (create_freeshow_slide L (verse_of [ascii '' {c: hi}'', ascii ''La''])))
         = [ascii '' {c'' @ [NBSP] @ ascii '': hi}'', ascii ''La'']"
proof
  fix L :: pylib
  let ?l = "ascii '' {c: hi}''"
  let ?sec = "verse_of [?l, ascii ''La'']"
  have h1: "?l \<in> set (content ?sec)" by (simp add: verse_of_def)
  have h2: "startswith (strip ?l) (ascii ''{c:'')"
    by (simp add: startswith_def strip_def isspace_def ascii_Nil ascii_Cons)
  have h3: "?l \<noteq> []" by (simp add: ascii_Cons)
  have h4: "isspace (hd ?l)" by (simp add: isspace_def ascii_Cons)
  have c1: "content_lines ?sec = [ascii ''La'']"
    by (simp add: content_lines_def verse_of_def startswith_def strip_def isspace_def
        ascii_Nil ascii_Cons)
  have c2: "map l_text (s_lines (create_freeshow_slide L ?sec))
      = [ascii '' {c'' @ [NBSP] @ ascii '': hi}'', ascii ''La'']"
    by (simp add: slide_eval verse_of_def)
  from indented_comment_line [OF h1 h2 h3 h4, of L]
  have "display_line L ?l \<in> set (s_lines (create_freeshow_slide L ?sec))" by simp
  then show "?l \<in> set (content ?sec) \<and> startswith (strip ?l) (ascii ''{c:'') \<and>
       isspace (hd ?l) \<and> content_lines ?sec = [ascii ''La''] \<and>
       display_line L ?l \<in> set (s_lines (create_freeshow_slide L ?sec)) \<and>
       map l_text (s_lines (create_freeshow_slide L ?sec))
         = [ascii '' {c'' @ [NBSP] @ ascii '': hi}'', ascii ''La'']"
    using h1 h2 h4 c1 c2 by blast
qed

subsection \<open>The layout\<close>

lemma layout_loop_in_range:
  "\<forall>k\<in>set idx. k < length ids \<Longrightarrow> layout_loop ids idx = Inr (map (\<lambda>k. ids ! k) idx)"
  by (induction idx) simp_all

lemma slide_ids_nth:
  "k < length uniq \<Longrightarrow>
   map (\<lambda>(i, section). slide_id L i section) (enumerate 0 uniq) ! k = slide_id L k (uniq ! k)"
  by (simp add: nth_enumerate_eq)

text \<open>The layout that \<open>generate_freeshow_file\<close> writes.\<close>

lemma generate_freeshow_file_layout:
  assumes p: "parse_chordpro_file L t = Inr (md, secs)"
    and d: "deduplicate_sections L secs = (uniq, idx_map)"
  shows "\<exists>doc. generate_freeshow_file L filename t = Inr doc \<and>
     show_layout_slides doc = map (\<lambda>k. slide_id L k (uniq ! k)) idx_map"
proof -
  let ?ids = "map (\<lambda>(i, section). slide_id L i section) (enumerate 0 uniq)"
  have u: "uniq = unique_sections (dedup_loop L secs)"
    and m: "idx_map = index_map (dedup_loop L secs)"
    using d by (simp_all add: deduplicate_sections_def)
  from dedup_inv_loop [of L secs]
  have len: "length idx_map = length secs"
    and idx: "\<And>k. k < length secs \<Longrightarrow> idx_map ! k < length uniq"
    unfolding u m by (auto simp: dedup_inv_def)
  have range: "\<forall>k\<in>set idx_map. k < length ?ids"
    using len idx by (auto simp: in_set_conv_nth)
  have "layout_loop ?ids idx_map = Inr (map (\<lambda>k. ?ids ! k) idx_map)"
    using range by (rule layout_loop_in_range)
  moreover have "map (\<lambda>k. ?ids ! k) idx_map = map (\<lambda>k. slide_id L k (uniq ! k)) idx_map"
    using range by (intro map_cong refl slide_ids_nth) simp
  ultimately have "layout_loop ?ids idx_map = Inr (map (\<lambda>k. slide_id L k (uniq ! k)) idx_map)"
    by simp
  then show ?thesis
    using p d by (simp add: generate_freeshow_file_def Let_def)
qed

text \<open>
  Claim C2. For every document, \<open>generate_freeshow_file\<close> returns a show whose layout has
  one slide reference for each section that the parser returned, before deduplication;
  position \<open>k\<close> refers to the slide identifier of the unique section that the index map
  selects for \<open>k\<close>, so sections with the same fingerprint have the same identifier at
  their positions. In particular, for three sections of which the first and the third have
  the same fingerprint and the second another one, there are two unique sections and the
  layout is \<open>[A, B, A]\<close>, with \<open>A\<close> and \<open>B\<close> the identifiers of the two.
\<close>

theorem layout_fidelity:
  "\<exists>md secs uniq idx_map doc.
     parse_chordpro_file L t = Inr (md, secs) \<and>
     deduplicate_sections L secs = (uniq, idx_map) \<and>
     generate_freeshow_file L filename t = Inr doc \<and>
     length (show_layout_slides doc) = length secs \<and>
     (\<forall>k<length secs.
        idx_map ! k < length uniq \<and>
        show_layout_slides doc ! k = slide_id L (idx_map ! k) (uniq ! (idx_map ! k))) \<and>
     (\<forall>i<length secs. \<forall>j<length secs.
        content_hash L (secs ! i) = content_hash L (secs ! j) \<longrightarrow>
        show_layout_slides doc ! i = show_layout_slides doc ! j) \<and>
     (\<forall>a b c.
        secs = [a, b, c] \<and> content_hash L a = content_hash L c \<and>
        content_hash L a \<noteq> content_hash L b \<longrightarrow>
        uniq = [a, b] \<and>
        show_layout_slides doc = [slide_id L 0 a, slide_id L 1 b, slide_id L 0 a])"
proof -
  obtain md secs where p: "parse_chordpro_file L t = Inr (md, secs)"
    using parse_chordpro_file_total by blast
  obtain uniq idx_map where d: "deduplicate_sections L secs = (uniq, idx_map)"
    by (cases "deduplicate_sections L secs")
  obtain doc where g: "generate_freeshow_file L filename t = Inr doc"
    and lay: "show_layout_slides doc = map (\<lambda>k. slide_id L k (uniq ! k)) idx_map"
    using generate_freeshow_file_layout [OF p d] by blast
  have u: "uniq = unique_sections (dedup_loop L secs)"
    and m: "idx_map = index_map (dedup_loop L secs)"
    using d by (simp_all add: deduplicate_sections_def)
  from dedup_inv_loop [of L secs]
  have len: "length idx_map = length secs"
    and idx: "\<And>k. k < length secs \<Longrightarrow> idx_map ! k < length uniq"
    unfolding u m by (auto simp: dedup_inv_def)
  have same: "idx_map ! i = idx_map ! j"
    if "i < length secs" "j < length secs"
      "content_hash L (secs ! i) = content_hash L (secs ! j)" for i j
    unfolding m using dedup_same_index [OF that(1,2), of L] that(3) by simp
  have c1: "length (show_layout_slides doc) = length secs"
    using lay len by simp
  have nth: "show_layout_slides doc ! k = slide_id L (idx_map ! k) (uniq ! (idx_map ! k))"
    if "k < length secs" for k
    unfolding lay using that len by simp
  have c2: "\<forall>k<length secs. idx_map ! k < length uniq \<and>
      show_layout_slides doc ! k = slide_id L (idx_map ! k) (uniq ! (idx_map ! k))"
    using nth idx by blast
  have c3: "\<forall>i<length secs. \<forall>j<length secs.
      content_hash L (secs ! i) = content_hash L (secs ! j) \<longrightarrow>
      show_layout_slides doc ! i = show_layout_slides doc ! j"
  proof (intro allI impI)
    fix i j
    assume ij: "i < length secs" "j < length secs"
      and h: "content_hash L (secs ! i) = content_hash L (secs ! j)"
    have "idx_map ! i = idx_map ! j" using ij h by (rule same)
    then show "show_layout_slides doc ! i = show_layout_slides doc ! j"
      unfolding nth [OF ij(1)] nth [OF ij(2)] by simp
  qed
  have c4': "uniq = [a, b] \<and>
      show_layout_slides doc = [slide_id L 0 a, slide_id L 1 b, slide_id L 0 a]"
    if "secs = [a, b, c] \<and> content_hash L a = content_hash L c \<and>
        content_hash L a \<noteq> content_hash L b" for a b c
  proof -
    have ac: "content_hash L c = content_hash L a"
      and ab: "content_hash L b \<noteq> content_hash L a"
      using that by auto
    have "deduplicate_sections L [a, b, c] = ([a, b], [0, 1, 0])"
      by (simp add: deduplicate_sections_def dedup_loop_def dedup_step_def ac ab ab [symmetric])
    then have "uniq = [a, b]" and "idx_map = [0, 1, 0]" using d that by simp_all
    then show ?thesis unfolding lay by simp
  qed
  have c4: "\<forall>a b c.
        secs = [a, b, c] \<and> content_hash L a = content_hash L c \<and>
        content_hash L a \<noteq> content_hash L b \<longrightarrow>
        uniq = [a, b] \<and>
        show_layout_slides doc = [slide_id L 0 a, slide_id L 1 b, slide_id L 0 a]"
    using c4' by (intro allI impI)
  have "parse_chordpro_file L t = Inr (md, secs) \<and>
     deduplicate_sections L secs = (uniq, idx_map) \<and>
     generate_freeshow_file L filename t = Inr doc \<and>
     length (show_layout_slides doc) = length secs \<and>
     (\<forall>k<length secs.
        idx_map ! k < length uniq \<and>
        show_layout_slides doc ! k = slide_id L (idx_map ! k) (uniq ! (idx_map ! k))) \<and>
     (\<forall>i<length secs. \<forall>j<length secs.
        content_hash L (secs ! i) = content_hash L (secs ! j) \<longrightarrow>
        show_layout_slides doc ! i = show_layout_slides doc ! j) \<and>
     (\<forall>a b c.
        secs = [a, b, c] \<and> content_hash L a = content_hash L c \<and>
        content_hash L a \<noteq> content_hash L b \<longrightarrow>
        uniq = [a, b] \<and>
        show_layout_slides doc = [slide_id L 0 a, slide_id L 1 b, slide_id L 0 a])"
    by (intro conjI) (rule p d g c1 c2 c3 c4)+
  then show ?thesis by (intro exI)
qed

theorem layout_fidelity_witness:
  "\<exists>md secs doc.
     parse_chordpro_file ascii_lib
       (join_nl [ascii ''{start_of_chorus}'', ascii ''La'', ascii ''{end_of_chorus}'',
                 ascii ''{start_of_verse}'', ascii ''Mi'', ascii ''{end_of_verse}'',
                 ascii ''{start_of_chorus}'', ascii ''La'', ascii ''{end_of_chorus}''])
       = Inr (md, secs) \<and>
     length secs = 3 \<and>
     content_hash ascii_lib (secs ! 0) = content_hash ascii_lib (secs ! 2) \<and>
     content_hash ascii_lib (secs ! 0) \<noteq> content_hash ascii_lib (secs ! 1) \<and>
     length (fst (deduplicate_sections ascii_lib secs)) = 2 \<and>
     snd (deduplicate_sections ascii_lib secs) = [0, 1, 0] \<and>
     generate_freeshow_file ascii_lib (ascii ''jem001'')
       (join_nl [ascii ''{start_of_chorus}'', ascii ''La'', ascii ''{end_of_chorus}'',
                 ascii ''{start_of_verse}'', ascii ''Mi'', ascii ''{end_of_verse}'',
                 ascii ''{start_of_chorus}'', ascii ''La'', ascii ''{end_of_chorus}''])
       = Inr doc \<and>
     show_layout_slides doc = [ascii ''chorus0La'', ascii ''verse1Mi'', ascii ''chorus0La'']"
proof -
  let ?t = "join_nl [ascii ''{start_of_chorus}'', ascii ''La'', ascii ''{end_of_chorus}'',
                 ascii ''{start_of_verse}'', ascii ''Mi'', ascii ''{end_of_verse}'',
                 ascii ''{start_of_chorus}'', ascii ''La'', ascii ''{end_of_chorus}'']"
  let ?c = "\<lparr>name = ascii ''Chorus'', type = ascii ''chorus'', number = None,
             content = [ascii ''La''], raw_content = ascii ''La''\<rparr>"
  let ?v = "\<lparr>name = ascii ''Verse'', type = ascii ''verse'', number = None,
             content = [ascii ''Mi''], raw_content = ascii ''Mi''\<rparr>"
  have ev: "parse_chordpro_file ascii_lib ?t = Inr (Map.empty, [?c, ?v, ?c])"
    by (simp add: parse_eval ascii_lib_def ascii_letter_def ascii_upper_def ascii_lower_def)
  obtain md secs uniq idx_map doc where
    p: "parse_chordpro_file ascii_lib ?t = Inr (md, secs)"
    and d: "deduplicate_sections ascii_lib secs = (uniq, idx_map)"
    and g: "generate_freeshow_file ascii_lib (ascii ''jem001'') ?t = Inr doc"
    and ex: "\<forall>a b c.
        secs = [a, b, c] \<and> content_hash ascii_lib a = content_hash ascii_lib c \<and>
        content_hash ascii_lib a \<noteq> content_hash ascii_lib b \<longrightarrow>
        uniq = [a, b] \<and>
        show_layout_slides doc
          = [slide_id ascii_lib 0 a, slide_id ascii_lib 1 b, slide_id ascii_lib 0 a]"
    using layout_fidelity [of ascii_lib ?t "ascii ''jem001''"] by blast
  have secs: "secs = [?c, ?v, ?c]" using p ev by simp
  have h1: "content_hash ascii_lib ?c = content_hash ascii_lib ?c" by simp
  have h2: "content_hash ascii_lib ?c \<noteq> content_hash ascii_lib ?v"
    by (simp add: content_hash_def content_lines_def ascii_lib_def startswith_def strip_def
        isspace_def ascii_Nil ascii_Cons)
  from ex secs h1 h2 have u: "uniq = [?c, ?v]"
    and lay: "show_layout_slides doc
        = [slide_id ascii_lib 0 ?c, slide_id ascii_lib 1 ?v, slide_id ascii_lib 0 ?c]"
    by blast+
  have ids: "slide_id ascii_lib 0 ?c = ascii ''chorus0La''"
    "slide_id ascii_lib 1 ?v = ascii ''verse1Mi''"
    by (simp_all add: slide_id_def ascii_lib_def str_nat.simps ascii_Nil ascii_Cons)
  have dd: "deduplicate_sections ascii_lib secs = ([?c, ?v], [0, 1, 0])"
    unfolding secs
    by (simp add: deduplicate_sections_def dedup_loop_def dedup_step_def h2 h2 [symmetric])
  have "parse_chordpro_file ascii_lib ?t = Inr (md, secs) \<and>
     length secs = 3 \<and>
     content_hash ascii_lib (secs ! 0) = content_hash ascii_lib (secs ! 2) \<and>
     content_hash ascii_lib (secs ! 0) \<noteq> content_hash ascii_lib (secs ! 1) \<and>
     length (fst (deduplicate_sections ascii_lib secs)) = 2 \<and>
     snd (deduplicate_sections ascii_lib secs) = [0, 1, 0] \<and>
     generate_freeshow_file ascii_lib (ascii ''jem001'') ?t = Inr doc \<and>
     show_layout_slides doc = [ascii ''chorus0La'', ascii ''verse1Mi'', ascii ''chorus0La'']"
    using p g h2 lay ids dd unfolding secs by simp
  then show ?thesis by (intro exI)
qed

section \<open>Properties of the metadata merge\<close>

subsection \<open>A document without a row in the metadata table\<close>

text \<open>
  Claim C9. When the lowercased stem of the file name is not a key of the metadata table,
  \<open>enhance_chordpro\<close> does not fail, and it writes no line from the table: before the
  blank separator line stands the \<open>key\<close> directive of the document, when it has one, and
  nothing else; the sections follow.
\<close>

theorem enhance_chordpro_without_metadata:
  assumes "table (str_lower L filename) = None"
  shows "\<exists>md secs.
     parse_chordpro_file L t = Inr (md, secs) \<and>
     enhance_chordpro L table filename t =
       Inr ((case md (ascii ''key'') of
               Some v \<Rightarrow> [ascii ''{key: '' @ v @ ascii ''}'']
             | None \<Rightarrow> []) @
            [[]] @ concat (map section_block secs))"
proof -
  obtain md secs where p: "parse_chordpro_file L t = Inr (md, secs)"
    using parse_chordpro_file_total by blast
  then show ?thesis using assms by (simp add: enhance_chordpro_def)
qed

theorem enhance_chordpro_without_metadata_witness:
  "[ascii ''jem002'' \<mapsto> other_song] (str_lower ascii_lib (ascii ''JEM001'')) = None \<and>
   enhance_chordpro ascii_lib [ascii ''jem002'' \<mapsto> other_song] (ascii ''JEM001'')
     (join_nl [ascii ''{title: T}'', ascii ''{key: G}'', ascii ''{start_of_verse}'',
               ascii ''La !'', ascii ''{end_of_verse}''])
     = Inr [ascii ''{key: G}'', [], ascii ''{start_of_verse}'', ascii ''La'' @ [NBSP] @ ascii ''!'',
            ascii ''{end_of_verse}'', []]"
proof -
  let ?t = "join_nl [ascii ''{title: T}'', ascii ''{key: G}'', ascii ''{start_of_verse}'',
               ascii ''La !'', ascii ''{end_of_verse}'']"
  let ?table = "[ascii ''jem002'' \<mapsto> other_song]"
  have h: "?table (str_lower ascii_lib (ascii ''JEM001'')) = None"
    by (simp add: ascii_lib_def ascii_lower_def ascii_Nil ascii_Cons)
  have ev: "parse_chordpro_file ascii_lib ?t
      = Inr ([ascii ''title'' \<mapsto> ascii ''T'', ascii ''key'' \<mapsto> ascii ''G''],
             [\<lparr>name = ascii ''Verse'', type = ascii ''verse'', number = None,
               content = [ascii ''La !''], raw_content = ascii ''La !''\<rparr>])"
    by (simp add: parse_eval match_directive_def ascii_lib_def ascii_letter_def
        ascii_upper_def ascii_lower_def)
  obtain md secs where p: "parse_chordpro_file ascii_lib ?t = Inr (md, secs)"
    and e: "enhance_chordpro ascii_lib ?table (ascii ''JEM001'') ?t =
       Inr ((case md (ascii ''key'') of
               Some v \<Rightarrow> [ascii ''{key: '' @ v @ ascii ''}'']
             | None \<Rightarrow> []) @
            [[]] @ concat (map section_block secs))"
    using enhance_chordpro_without_metadata
      [where table = ?table and L = ascii_lib and filename = "ascii ''JEM001''" and t = ?t] h
    by blast
  have md: "md = [ascii ''title'' \<mapsto> ascii ''T'', ascii ''key'' \<mapsto> ascii ''G'']"
    and secs: "secs = [\<lparr>name = ascii ''Verse'', type = ascii ''verse'', number = None,
               content = [ascii ''La !''], raw_content = ascii ''La !''\<rparr>]"
    using p ev by simp_all
  have "enhance_chordpro ascii_lib ?table (ascii ''JEM001'') ?t
      = Inr [ascii ''{key: G}'', [], ascii ''{start_of_verse}'', ascii ''La'' @ [NBSP] @ ascii ''!'',
            ascii ''{end_of_verse}'', []]"
    unfolding e md secs by (simp add: section_block_def fix_eval startswith_def strip_def)
  then show ?thesis using h by simp
qed

end
